theory Spec2Isabelle
  imports Complex_Main
begin

section \<open>Schroedinger-Newton solver for a BEC dark-matter halo: the notebook's numerical cells\<close>

text \<open>
  The notebook \<^verbatim>\<open>numerical-solution-SN-BEC-halo-thomas-algorithm.ipynb\<close> is embedded
  cell by cell. Python floats are modelled as exact reals and Python complex numbers as
  exact complex numbers, so the rounding of the embedded operations is outside the model;
  where a statement is about doubles, the rounding function \<open>double_round\<close> below is
  applied explicitly. Every list read is checked (Python raises IndexError), every
  division of the solver is checked (Python's complex division raises ZeroDivisionError
  on a zero divisor), the float powers and int-to-float conversions of the potential
  block are checked for the double range (OverflowError), and the NumPy subtraction of
  cell 9 is checked for its shapes (ValueError). The notebook's global names are kept;
  one-letter globals are fields of the configuration record under longer names.

  From the second time step on the amplitudes are NumPy scalars. Their power never
  raises, and where such a scalar is the dividend NumPy's division returns an infinity or
  a NaN with a warning instead of raising; these are floating-point values and have no
  counterpart here. On the systems the time loop builds no divisor is zero
  (\<open>built_pivots\<close> below), so the two divisions cannot differ there.
\<close>

subsection \<open>Exceptions and checked primitives\<close>

datatype error = IndexError | ZeroDivisionError | ValueError | OverflowError

text \<open>
  A float power (\<^verbatim>\<open>x**2\<close>) and the conversion of a Python int to a float raise
  OverflowError when the result leaves the double range. The test is made on the exact
  value against \<open>2^1024\<close>; the rounding at the boundary is outside the model. Float
  additions and multiplications overflow to an infinity without raising.
\<close>

definition overflows :: "real \<Rightarrow> bool" where
  "overflows x = (2 ^ 1024 \<le> \<bar>x\<bar>)"

text \<open>\<^verbatim>\<open>xs[i]\<close> for a non-negative index.\<close>

definition idx :: "'a list \<Rightarrow> nat \<Rightarrow> error + 'a" where
  "idx xs i = (if i < length xs then Inr (xs ! i) else Inl IndexError)"

text \<open>\<^verbatim>\<open>x / y\<close> on Python complex numbers.\<close>

definition pdiv :: "complex \<Rightarrow> complex \<Rightarrow> error + complex" where
  "pdiv x y = (if y = 0 then Inl ZeroDivisionError else Inr (x / y))"

text \<open>Sequencing of two computations that may raise.\<close>

definition thn :: "error + 'a \<Rightarrow> ('a \<Rightarrow> error + 'b) \<Rightarrow> error + 'b" where
  "thn m f = (case m of Inl e \<Rightarrow> Inl e | Inr x \<Rightarrow> f x)"

text \<open>\<^verbatim>\<open>for J in range(0, N): out.append(f(J))\<close>, stopping at the first exception.\<close>

fun traverse :: "('a \<Rightarrow> error + 'b) \<Rightarrow> 'a list \<Rightarrow> error + 'b list" where
  "traverse f [] = Inr []"
| "traverse f (x # xs) = thn (f x) (\<lambda>y. thn (traverse f xs) (\<lambda>ys. Inr (y # ys)))"

text \<open>
  \<^verbatim>\<open>np.array(X) - np.array(Y)\<close> on one-dimensional arrays: equal lengths subtract
  element by element, an array of length one is broadcast, any other pair of shapes
  raises ValueError.
\<close>

definition np_sub :: "complex list \<Rightarrow> complex list \<Rightarrow> error + complex list" where
  "np_sub X Y =
     (if length X = length Y then Inr (map2 (\<lambda>x y. x - y) X Y)
      else if length X = 1 then Inr (map (\<lambda>y. hd X - y) Y)
      else if length Y = 1 then Inr (map (\<lambda>x. x - hd Y) X)
      else Inl ValueError)"

subsection \<open>Configuration (cells 2 to 7)\<close>

record config =
  grav_G :: real   \<comment> \<open>\<^verbatim>\<open>G\<close>\<close>
  hbar :: real     \<comment> \<open>\<^verbatim>\<open>h\<close>\<close>
  halo_a :: real   \<comment> \<open>\<^verbatim>\<open>a\<close>\<close>
  halo_M :: real   \<comment> \<open>\<^verbatim>\<open>M\<close>\<close>
  cell_dr :: real  \<comment> \<open>\<^verbatim>\<open>dr\<close>\<close>
  step_dt :: real  \<comment> \<open>\<^verbatim>\<open>dt\<close>\<close>
  cells_N :: nat   \<comment> \<open>\<^verbatim>\<open>N\<close>\<close>
  steps_n :: nat   \<comment> \<open>\<^verbatim>\<open>n\<close>\<close>

text \<open>
  The derived constants divide by \<^verbatim>\<open>a**3\<close>, \<^verbatim>\<open>M\<close>, \<^verbatim>\<open>h\<close> and \<^verbatim>\<open>dr**2\<close>; the
  configuration cells raise when one of them is zero, before any loop runs.
\<close>

definition config_ok :: "config \<Rightarrow> bool" where
  "config_ok c = (halo_a c \<noteq> 0 \<and> halo_M c \<noteq> 0 \<and> hbar c \<noteq> 0 \<and> cell_dr c \<noteq> 0)"

definition rho :: "config \<Rightarrow> real" where
  "rho c = halo_M c / ((4 / 3) * pi * halo_a c ^ 3)"

definition om_sq :: "config \<Rightarrow> real" where
  "om_sq c = 4 * pi * grav_G c * rho c / 3"

definition R_const :: "config \<Rightarrow> real" where
  "R_const c = step_dt c / cell_dr c ^ 2"

definition K_const :: "config \<Rightarrow> complex" where
  "K_const c = complex_of_real (hbar c / (8 * halo_M c)) * \<i>"

definition P_const :: "config \<Rightarrow> complex" where
  "P_const c = complex_of_real (step_dt c / (2 * hbar c)) * \<i>"

subsection \<open>Step 1: the initial wave function (cell 8)\<close>

text \<open>
  The profile \<^verbatim>\<open>(math.pi*a**2)**(-3/4)*math.exp(-(J*dr)**2/(2*a**2))\<close>. The list holds
  Python floats; the time loop reads them as complex numbers, so a run starts from
  \<open>map complex_of_real (initial_condition c)\<close>.
\<close>

definition gaussian :: "config \<Rightarrow> nat \<Rightarrow> real" where
  "gaussian c J =
     (pi * halo_a c ^ 2) powr (- 3 / 4) *
     exp (- ((real J * cell_dr c) ^ 2) / (2 * halo_a c ^ 2))"

definition initial_condition :: "config \<Rightarrow> real list" where
  "initial_condition c = map (gaussian c) [0..<cells_N c]"

subsection \<open>Step 2: the potential (cell 9, first block)\<close>

text \<open>
  The inner \<^verbatim>\<open>while i < N\<close> loop accumulating \<^verbatim>\<open>sum_1\<close> and \<^verbatim>\<open>sum_2\<close>. The step
  \<^verbatim>\<open>dr\<close> is a Python int as in cell 5, so \<^verbatim>\<open>i**2*dr**3\<close> and \<^verbatim>\<open>i**4*dr**5\<close> are
  exact ints that are converted to floats when they meet \<^verbatim>\<open>abs(...)**2\<close>. The flag
  \<open>py\<close> says that the amplitudes are Python floats, as in the initial snapshot: then
  \<^verbatim>\<open>abs(...)**2\<close> is a float power. The later snapshots hold NumPy scalars, whose
  power never raises.
\<close>

function sums_loop ::
  "bool \<Rightarrow> real \<Rightarrow> nat \<Rightarrow> complex list \<Rightarrow> nat \<Rightarrow> real \<Rightarrow> real \<Rightarrow> error + (real \<times> real)" where
  "sums_loop py dr N psi i sum_1 sum_2 =
     (if i < N then
        thn (idx psi i) (\<lambda>p.
          if (py \<and> overflows (cmod p ^ 2)) \<or> overflows (real i ^ 2 * dr ^ 3)
          then Inl OverflowError
          else if overflows (real i ^ 4 * dr ^ 5) then Inl OverflowError
          else
            sums_loop py dr N psi (Suc i)
              (sum_1 + real i ^ 2 * dr ^ 3 * cmod p ^ 2)
              (sum_2 + real i ^ 4 * dr ^ 5 * cmod p ^ 2))
      else Inr (sum_1, sum_2))"
  by pat_completeness auto
termination
  by (relation "measure (\<lambda>(py, dr, N, psi, i, sum_1, sum_2). N - i)") auto

declare sums_loop.simps [simp del]

text \<open>
  The entry appended to \<^verbatim>\<open>V_n_J\<close>; the int \<^verbatim>\<open>(J*dr)**2\<close> is converted to a float.
\<close>

definition V_entry :: "config \<Rightarrow> bool \<Rightarrow> complex list \<Rightarrow> nat \<Rightarrow> error + real" where
  "V_entry c py psi J =
     thn (sums_loop py (cell_dr c) (cells_N c) psi 0 0 0) (\<lambda>(sum_1, sum_2).
       if overflows ((real J * cell_dr c) ^ 2) then Inl OverflowError
       else Inr (2 * pi * om_sq c * ((real J * cell_dr c) ^ 2) * sum_1 - sum_2))"

definition potential :: "config \<Rightarrow> bool \<Rightarrow> complex list \<Rightarrow> error + real list" where
  "potential c py psi = traverse (V_entry c py psi) [0..<cells_N c]"

text \<open>
  The values for which no line of the potential block raises OverflowError: the grid
  terms of every index, and the squared amplitudes of a snapshot of Python floats.
\<close>

definition grid_in_range :: "config \<Rightarrow> bool" where
  "grid_in_range c =
     list_all (\<lambda>J. \<not> overflows (real J ^ 2 * cell_dr c ^ 3) \<and>
                   \<not> overflows (real J ^ 4 * cell_dr c ^ 5) \<and>
                   \<not> overflows ((real J * cell_dr c) ^ 2)) [0..<cells_N c]"

definition amplitudes_in_range :: "complex list \<Rightarrow> bool" where
  "amplitudes_in_range psi = list_all (\<lambda>p. \<not> overflows (cmod p ^ 2)) psi"

subsection \<open>Step 3: the tridiagonal coefficients (cell 9, second block)\<close>

text \<open>
  One pass of the \<^verbatim>\<open>for J in range(0, N)\<close> loop: the entries appended to
  \<^verbatim>\<open>A_J\<close>, \<^verbatim>\<open>B_J\<close> and \<^verbatim>\<open>C_J\<close>. The potential is read as \<^verbatim>\<open>V_n_J[t]\<close>, with the
  time-step counter \<^verbatim>\<open>t\<close>, in all three branches.
\<close>

definition coeffs :: "config \<Rightarrow> real list \<Rightarrow> nat \<Rightarrow> nat \<Rightarrow> error + (complex \<times> complex \<times> complex)" where
  "coeffs c V_n_J t J =
     (if J = 0 then
        thn (idx V_n_J t) (\<lambda>v.
          Inr (0,
               0.5 * (1 + P_const c * complex_of_real v + 12 * K_const c * complex_of_real (R_const c)),
               - 6 * K_const c * complex_of_real (R_const c)))
      else if int J = int (cells_N c) - 1 then
        thn (idx V_n_J t) (\<lambda>v.
          Inr (- K_const c * complex_of_real (R_const c)
                 * complex_of_real ((real (cells_N c) - 2) / (real (cells_N c) - 1)),
               0.5 * (1 + P_const c * complex_of_real v),
               0))
      else
        thn (idx V_n_J t) (\<lambda>v.
          Inr (- K_const c * complex_of_real (R_const c) * complex_of_real (real J - 1)
                 / complex_of_real (real J),
               0.5 * (1 + P_const c * complex_of_real v + 2 * K_const c * complex_of_real (R_const c)),
               - K_const c * complex_of_real (R_const c) * complex_of_real (real J + 1)
                 / complex_of_real (real J))))"

definition builder ::
  "config \<Rightarrow> real list \<Rightarrow> nat \<Rightarrow> error + (complex list \<times> complex list \<times> complex list)" where
  "builder c V_n_J t =
     thn (traverse (coeffs c V_n_J t) [0..<cells_N c]) (\<lambda>rows.
       Inr (map fst rows, map (\<lambda>r. fst (snd r)) rows, map (\<lambda>r. snd (snd r)) rows))"

subsection \<open>Step 4: the Thomas algorithm (cell 9, third block)\<close>

text \<open>The forward sweep filling the helper lists \<^verbatim>\<open>B\<close> and \<^verbatim>\<open>D\<close>.\<close>

function forward ::
  "nat \<Rightarrow> complex list \<Rightarrow> complex list \<Rightarrow> complex list \<Rightarrow> complex list \<Rightarrow>
   nat \<Rightarrow> complex list \<Rightarrow> complex list \<Rightarrow> error + (complex list \<times> complex list)" where
  "forward N A_J B_J C_J d i B D =
     (if i < N then
        (if i = 0 then
           thn (idx B_J i) (\<lambda>b.
           thn (idx d i) (\<lambda>x.
             forward N A_J B_J C_J d (Suc i) (B @ [b]) (D @ [x])))
         else
           thn (idx B_J i) (\<lambda>b.
           thn (idx A_J i) (\<lambda>a.
           thn (idx C_J (i - 1)) (\<lambda>c'.
           thn (idx B (i - 1)) (\<lambda>p.
           thn (pdiv (a * c') p) (\<lambda>q.
           thn (idx d i) (\<lambda>x.
           thn (idx A_J i) (\<lambda>a2.
           thn (idx D (i - 1)) (\<lambda>d'.
           thn (idx B (i - 1)) (\<lambda>p2.
           thn (pdiv (a2 * d') p2) (\<lambda>q2.
             forward N A_J B_J C_J d (Suc i) (B @ [b - q]) (D @ [x - q2]))))))))))))
      else Inr (B, D))"
  by pat_completeness auto

termination
  by (relation "measure (\<lambda>(N, A_J, B_J, C_J, d, i, B, D). N - i)") auto

declare forward.simps [simp del]

text \<open>The backward sweep filling \<^verbatim>\<open>X\<close> from the last unknown to the first.\<close>

function backward ::
  "nat \<Rightarrow> complex list \<Rightarrow> complex list \<Rightarrow> complex list \<Rightarrow>
   nat \<Rightarrow> complex list \<Rightarrow> error + complex list" where
  "backward N C_J B D i X =
     (if i < N then
        (if i = 0 then
           thn (idx D (N - 1 - i)) (\<lambda>d'.
           thn (idx B (N - 1 - i)) (\<lambda>p.
           thn (pdiv d' p) (\<lambda>q.
             backward N C_J B D (Suc i) (X @ [q]))))
         else
           thn (idx D (N - 1 - i)) (\<lambda>d'.
           thn (idx C_J (N - 1 - i)) (\<lambda>c'.
           thn (idx X (i - 1)) (\<lambda>x.
           thn (idx B (N - 1 - i)) (\<lambda>p.
           thn (pdiv (d' - c' * x) p) (\<lambda>q.
             backward N C_J B D (Suc i) (X @ [q])))))))
      else Inr X)"
  by pat_completeness auto

termination
  by (relation "measure (\<lambda>(N, C_J, B, D, i, X). N - i)") auto

declare backward.simps [simp del]

definition thomas ::
  "nat \<Rightarrow> complex list \<Rightarrow> complex list \<Rightarrow> complex list \<Rightarrow> complex list \<Rightarrow> error + complex list" where
  "thomas N A_J B_J C_J d =
     thn (forward N A_J B_J C_J d 0 [] []) (\<lambda>(B, D).
     thn (backward N C_J B D 0 []) (\<lambda>X. Inr (rev X)))"

subsection \<open>Step 5 and the time loop (cell 9)\<close>

text \<open>
  One pass of \<^verbatim>\<open>for t in range(0, n)\<close>: the snapshot appended to \<^verbatim>\<open>psi_n_J\<close>.
  Only the snapshot of step 0 holds Python floats.
\<close>

definition step :: "config \<Rightarrow> nat \<Rightarrow> complex list list \<Rightarrow> error + complex list" where
  "step c t psi_n_J =
     thn (idx psi_n_J t) (\<lambda>psi.
     thn (potential c (t = 0) psi) (\<lambda>V_n_J.
     thn (builder c V_n_J t) (\<lambda>(A_J, B_J, C_J).
     thn (thomas (cells_N c) A_J B_J C_J psi) (\<lambda>X.
       np_sub X psi))))"

text \<open>
  The loop. An exception leaves the notebook with the exception, the value of
  \<^verbatim>\<open>t\<close> and the list \<^verbatim>\<open>psi_n_J\<close> as they were when it was raised.
\<close>

function time_loop ::
  "config \<Rightarrow> nat \<Rightarrow> complex list list \<Rightarrow> (error \<times> nat \<times> complex list list) + complex list list" where
  "time_loop c t psi_n_J =
     (if t < steps_n c then
        (case step c t psi_n_J of
           Inl e \<Rightarrow> Inl (e, t, psi_n_J)
         | Inr psi' \<Rightarrow> time_loop c (Suc t) (psi_n_J @ [psi']))
      else Inr psi_n_J)"
  by pat_completeness auto

termination
  by (relation "measure (\<lambda>(c, t, psi_n_J). steps_n c - t)") auto

declare time_loop.simps [simp del]

definition run :: "config \<Rightarrow> complex list \<Rightarrow> (error \<times> nat \<times> complex list list) + complex list list" where
  "run c psi0 = time_loop c 0 [psi0]"

subsection \<open>The radius r_99 (cell 11)\<close>

text \<open>
  The \<^verbatim>\<open>for k in psi_n_J[l]\<close> loop with its \<^verbatim>\<open>break\<close> and its \<^verbatim>\<open>else\<close>: the radius
  appended to \<^verbatim>\<open>r_99\<close>, if any, and the value \<^verbatim>\<open>s\<close> is left with.
\<close>

fun scan :: "real \<Rightarrow> complex list \<Rightarrow> nat \<Rightarrow> real \<Rightarrow> real option \<times> real" where
  "scan dr [] i s = (None, s)"
| "scan dr (k # ks) i s =
     (let s' = s + 4 * pi * (real i * dr) ^ 2 * cmod k ^ 2 * dr in
      if s' > 0.99 then (Some (real i * dr), s') else scan dr ks (Suc i) s')"




section \<open>Closed forms and example configurations\<close>

subsection \<open>The recurrences of the Thomas algorithm\<close>

text \<open>
  The values the sweeps compute, as functions of the index: \<open>Bm\<close> is the modified
  diagonal \<^verbatim>\<open>B[i]\<close>, \<open>Dm\<close> the modified right-hand side \<^verbatim>\<open>D[i]\<close>, \<open>Xr\<close> the list
  \<^verbatim>\<open>X\<close> before it is reversed and \<open>Xs\<close> the list after. They are the vocabulary of the
  statements below; \<open>thomas_closed\<close> proves that the embedded sweeps compute them.
\<close>

fun Bm :: "complex list \<Rightarrow> complex list \<Rightarrow> complex list \<Rightarrow> nat \<Rightarrow> complex" where
  "Bm A_J B_J C_J 0 = B_J ! 0"
| "Bm A_J B_J C_J (Suc i) = B_J ! Suc i - A_J ! Suc i * C_J ! i / Bm A_J B_J C_J i"

fun Dm :: "complex list \<Rightarrow> complex list \<Rightarrow> complex list \<Rightarrow> complex list \<Rightarrow> nat \<Rightarrow> complex" where
  "Dm A_J B_J C_J d 0 = d ! 0"
| "Dm A_J B_J C_J d (Suc i) = d ! Suc i - A_J ! Suc i * Dm A_J B_J C_J d i / Bm A_J B_J C_J i"

fun Xr :: "nat \<Rightarrow> complex list \<Rightarrow> complex list \<Rightarrow> complex list \<Rightarrow> complex list \<Rightarrow> nat \<Rightarrow> complex" where
  "Xr N A_J B_J C_J d 0 = Dm A_J B_J C_J d (N - 1) / Bm A_J B_J C_J (N - 1)"
| "Xr N A_J B_J C_J d (Suc k) =
     (Dm A_J B_J C_J d (N - 1 - Suc k) - C_J ! (N - 1 - Suc k) * Xr N A_J B_J C_J d k)
       / Bm A_J B_J C_J (N - 1 - Suc k)"

definition Xs :: "nat \<Rightarrow> complex list \<Rightarrow> complex list \<Rightarrow> complex list \<Rightarrow> complex list \<Rightarrow> nat \<Rightarrow> complex" where
  "Xs N A_J B_J C_J d i = Xr N A_J B_J C_J d (N - 1 - i)"

subsection \<open>The sums of the potential and the rows of the matrix\<close>

text \<open>
  \<open>S1\<close> and \<open>S2\<close> are the values \<^verbatim>\<open>sum_1\<close> and \<^verbatim>\<open>sum_2\<close> hold when the inner loop
  ends, and \<open>row c v J\<close> is the triple appended at index \<open>J\<close> when the potential entry
  the loop reads is \<open>v\<close>; \<open>potential_closed\<close> and \<open>builder_closed\<close> prove it.
\<close>

definition S1 :: "real \<Rightarrow> nat \<Rightarrow> complex list \<Rightarrow> real" where
  "S1 dr N psi = (\<Sum>i = 0..<N. real i ^ 2 * dr ^ 3 * cmod (psi ! i) ^ 2)"

definition S2 :: "real \<Rightarrow> nat \<Rightarrow> complex list \<Rightarrow> real" where
  "S2 dr N psi = (\<Sum>i = 0..<N. real i ^ 4 * dr ^ 5 * cmod (psi ! i) ^ 2)"

definition row :: "config \<Rightarrow> real \<Rightarrow> nat \<Rightarrow> complex \<times> complex \<times> complex" where
  "row c v J =
     (if J = 0 then
        (0,
         0.5 * (1 + P_const c * complex_of_real v + 12 * K_const c * complex_of_real (R_const c)),
         - 6 * K_const c * complex_of_real (R_const c))
      else if Suc J = cells_N c then
        (- K_const c * complex_of_real (R_const c)
           * complex_of_real ((real (cells_N c) - 2) / (real (cells_N c) - 1)),
         0.5 * (1 + P_const c * complex_of_real v),
         0)
      else
        (- K_const c * complex_of_real (R_const c) * complex_of_real (real J - 1)
           / complex_of_real (real J),
         0.5 * (1 + P_const c * complex_of_real v + 2 * K_const c * complex_of_real (R_const c)),
         - K_const c * complex_of_real (R_const c) * complex_of_real (real J + 1)
           / complex_of_real (real J)))"

text \<open>
  The potential as the claim C2 words it, with the factor \<open>2 pi Omega^2\<close> on the whole
  bracket. It follows the claim's sentence, not the code, and is only compared with
  \<open>potential\<close>.
\<close>

definition claimed_potential :: "config \<Rightarrow> complex list \<Rightarrow> real list" where
  "claimed_potential c psi =
     map (\<lambda>J. 2 * pi * om_sq c *
            ((real J * cell_dr c) ^ 2 * S1 (cell_dr c) (cells_N c) psi - S2 (cell_dr c) (cells_N c) psi))
       [0..<cells_N c]"

subsection \<open>The running sum of the r_99 scan\<close>

text \<open>
  \<open>cumulative dr psi J\<close> is the sum over the indices \<open>0..J\<close>, the value of \<^verbatim>\<open>s\<close> after
  the entry \<open>J\<close> was added; \<open>partial_sum dr psi J\<close> is the value before it. \<open>found\<close> is
  what one snapshot adds to \<^verbatim>\<open>r_99\<close>: one radius, or nothing.
\<close>

definition cumulative :: "real \<Rightarrow> complex list \<Rightarrow> nat \<Rightarrow> real" where
  "cumulative dr psi J = (\<Sum>i = 0..J. 4 * pi * (real i * dr) ^ 2 * cmod (psi ! i) ^ 2 * dr)"

definition partial_sum :: "real \<Rightarrow> complex list \<Rightarrow> nat \<Rightarrow> real" where
  "partial_sum dr psi J = (\<Sum>i = 0..<J. 4 * pi * (real i * dr) ^ 2 * cmod (psi ! i) ^ 2 * dr)"

definition found :: "real \<Rightarrow> complex list \<Rightarrow> real list" where
  "found dr psi = (case fst (scan dr psi 0 0) of Some r \<Rightarrow> [r] | None \<Rightarrow> [])"

subsection \<open>Two configurations\<close>

text \<open>
  \<open>notebook_config\<close> holds the values of the notebook's cells 2 to 7 as exact rationals.
  \<open>demo_config\<close> is a small grid of two cells with three time steps.
\<close>

definition notebook_config :: config where
  "notebook_config = \<lparr>grav_G = 667430 / 10 ^ 16, hbar = 1054571817 / 10 ^ 43,
     halo_a = 20 * (30857 / 10 ^ 4) * 10 ^ 19,
     halo_M = (137 / 100) * 10 ^ 11 * (198847 / 10 ^ 5) * 10 ^ 30,
     cell_dr = 100000000000000000000, step_dt = 2, cells_N = 300, steps_n = 2\<rparr>"

definition demo_config :: config where
  "demo_config = \<lparr>grav_G = 1, hbar = 1, halo_a = 1, halo_M = 1, cell_dr = 1, step_dt = 2,
     cells_N = 2, steps_n = 3\<rparr>"

subsection \<open>Double-precision rounding\<close>

text \<open>
  \<open>double_round\<close> is the rounding of a real number to the nearest IEEE 754 binary64
  value, ties to even, with the subnormal range; a result beyond the largest double is
  not modelled. \<open>B_fl\<close>, \<open>D_fl\<close> and \<open>X_fl\<close> are the recurrences of the two sweeps
  (\<open>Bm\<close>, \<open>Dm\<close>, \<open>Xr\<close>) for real coefficients with every multiplication, division and
  subtraction rounded, as a run on doubles performs them; on operands with zero
  imaginary part Python's complex operations are these real operations.
\<close>

definition double_round :: "real \<Rightarrow> real" where
  "double_round x =
     (if x = 0 then 0
      else
        let e = max \<lfloor>log 2 \<bar>x\<bar>\<rfloor> (- 1022);
            u = 2 powr (real_of_int e - 52);
            q = x / u;
            f = \<lfloor>q\<rfloor>
        in u * real_of_int
             (if q - real_of_int f < 1 / 2 then f
              else if 1 / 2 < q - real_of_int f then f + 1
              else if even f then f else f + 1))"

fun B_fl :: "real list \<Rightarrow> real list \<Rightarrow> real list \<Rightarrow> nat \<Rightarrow> real" where
  "B_fl a b c 0 = b ! 0"
| "B_fl a b c (Suc i) =
     double_round (b ! Suc i - double_round (double_round (a ! Suc i * c ! i) / B_fl a b c i))"

fun D_fl :: "real list \<Rightarrow> real list \<Rightarrow> real list \<Rightarrow> real list \<Rightarrow> nat \<Rightarrow> real" where
  "D_fl a b c d 0 = d ! 0"
| "D_fl a b c d (Suc i) =
     double_round (d ! Suc i - double_round (double_round (a ! Suc i * D_fl a b c d i) / B_fl a b c i))"

fun X_fl :: "nat \<Rightarrow> real list \<Rightarrow> real list \<Rightarrow> real list \<Rightarrow> real list \<Rightarrow> nat \<Rightarrow> real" where
  "X_fl N a b c d 0 = double_round (D_fl a b c d (N - 1) / B_fl a b c (N - 1))"
| "X_fl N a b c d (Suc k) =
     double_round
       (double_round (D_fl a b c d (N - 1 - Suc k)
          - double_round (c ! (N - 1 - Suc k) * X_fl N a b c d k))
        / B_fl a b c (N - 1 - Suc k))"

section \<open>Properties\<close>

subsection \<open>Checked primitives\<close>

lemma thn_Inr [simp]: "thn (Inr x) f = f x"
  by (simp add: thn_def)

lemma thn_Inl [simp]: "thn (Inl e) f = Inl e"
  by (simp add: thn_def)

lemma idx_in [simp]: "i < length xs \<Longrightarrow> idx xs i = Inr (xs ! i)"
  by (simp add: idx_def)

lemma idx_out [simp]: "\<not> i < length xs \<Longrightarrow> idx xs i = Inl IndexError"
  by (simp add: idx_def)

lemma pdiv_zero [simp]: "pdiv x 0 = Inl ZeroDivisionError"
  by (simp add: pdiv_def)

lemma pdiv_nonzero [simp]: "y \<noteq> 0 \<Longrightarrow> pdiv x y = Inr (x / y)"
  by (simp add: pdiv_def)

lemma traverse_total:
  assumes "\<And>x. x \<in> set xs \<Longrightarrow> f x = Inr (g x)"
  shows "traverse f xs = Inr (map g xs)"
  using assms by (induction xs) simp_all

lemma np_sub_same_length:
  assumes "length X = length Y"
  shows "np_sub X Y = Inr (map2 (\<lambda>x y. x - y) X Y)"
  using assms by (simp add: np_sub_def)

subsection \<open>The Thomas algorithm in closed form\<close>

lemma forward_sweep:
  assumes len: "N \<le> length A_J" "N \<le> length B_J" "N \<le> length C_J" "N \<le> length d"
  shows "i \<le> N \<Longrightarrow> B = map (Bm A_J B_J C_J) [0..<i] \<Longrightarrow> D = map (Dm A_J B_J C_J d) [0..<i]
    \<Longrightarrow> (\<And>j. Suc j < i \<Longrightarrow> Bm A_J B_J C_J j \<noteq> 0)
    \<Longrightarrow> forward N A_J B_J C_J d i B D =
         (if \<exists>j. Suc j < N \<and> Bm A_J B_J C_J j = 0 then Inl ZeroDivisionError
          else Inr (map (Bm A_J B_J C_J) [0..<N], map (Dm A_J B_J C_J d) [0..<N]))"
proof (induction "N - i" arbitrary: i B D)
  case 0
  then have "i = N" by simp
  with 0 show ?case
    by (subst forward.simps) auto
next
  case (Suc k)
  then have lt: "i < N" by simp
  have inb: "i < length A_J" "i < length B_J" "i < length C_J" "i < length d"
    "i - 1 < length C_J"
    using lt len by auto
  have lenBD: "length B = i" "length D = i"
    using Suc.prems(2,3) by auto
  show ?case
  proof (cases i)
    case 0
    have step: "forward N A_J B_J C_J d 0 B D
        = forward N A_J B_J C_J d (Suc 0) (B @ [B_J ! 0]) (D @ [d ! 0])"
      using lt inb 0 by (subst forward.simps) simp
    have "forward N A_J B_J C_J d (Suc 0) (B @ [B_J ! 0]) (D @ [d ! 0]) =
         (if \<exists>j. Suc j < N \<and> Bm A_J B_J C_J j = 0 then Inl ZeroDivisionError
          else Inr (map (Bm A_J B_J C_J) [0..<N], map (Dm A_J B_J C_J d) [0..<N]))"
      using Suc.hyps(2) lt 0 Suc.prems(2,3)
      by (intro Suc.hyps(1)) auto
    with step 0 show ?thesis by simp
  next
    case (Suc i')
    note i = Suc
    show ?thesis
    proof (cases "Bm A_J B_J C_J i' = 0")
      case True
      have "forward N A_J B_J C_J d i B D = Inl ZeroDivisionError"
        using lt inb lenBD i True Suc.prems(2,3)
        by (subst forward.simps) (simp add: nth_append)
      moreover have "\<exists>j. Suc j < N \<and> Bm A_J B_J C_J j = 0"
        using True lt i by auto
      ultimately show ?thesis by simp
    next
      case False
      have step: "forward N A_J B_J C_J d i B D
          = forward N A_J B_J C_J d (Suc i)
              (B @ [Bm A_J B_J C_J i]) (D @ [Dm A_J B_J C_J d i])"
        using lt inb lenBD i False Suc.prems(2,3)
        by (subst forward.simps) (simp add: nth_append)
      have nz: "\<And>j. Suc j < Suc i \<Longrightarrow> Bm A_J B_J C_J j \<noteq> 0"
        using False Suc.prems(4) i less_Suc_eq by auto
      have "forward N A_J B_J C_J d (Suc i)
              (B @ [Bm A_J B_J C_J i]) (D @ [Dm A_J B_J C_J d i]) =
         (if \<exists>j. Suc j < N \<and> Bm A_J B_J C_J j = 0 then Inl ZeroDivisionError
          else Inr (map (Bm A_J B_J C_J) [0..<N], map (Dm A_J B_J C_J d) [0..<N]))"
        using Suc.hyps(2) lt Suc.prems(2,3) nz
        by (intro Suc.hyps(1)) auto
      with step show ?thesis by simp
    qed
  qed
qed

lemma backward_sweep:
  assumes len: "N \<le> length C_J"
    and B: "B = map (Bm A_J B_J C_J) [0..<N]"
    and D: "D = map (Dm A_J B_J C_J d) [0..<N]"
    and nz: "\<And>j. j < N \<Longrightarrow> Bm A_J B_J C_J j \<noteq> 0"
  shows "i \<le> N \<Longrightarrow> X = map (Xr N A_J B_J C_J d) [0..<i]
    \<Longrightarrow> backward N C_J B D i X = Inr (map (Xr N A_J B_J C_J d) [0..<N])"
proof (induction "N - i" arbitrary: i X)
  case 0
  then have "i = N" by simp
  with 0 show ?case
    by (subst backward.simps) auto
next
  case (Suc k)
  then have lt: "i < N" by simp
  have inb: "N - 1 - i < length C_J" "N - 1 - i < length B" "N - 1 - i < length D"
    "N - 1 - i < N"
    using lt len B D by auto
  have lenX: "length X = i"
    using Suc.prems(2) by simp
  have piv: "Bm A_J B_J C_J (N - 1 - i) \<noteq> 0"
    using nz inb(4) by blast
  have step: "backward N C_J B D i X
      = backward N C_J B D (Suc i) (X @ [Xr N A_J B_J C_J d i])"
  proof (cases i)
    case 0
    then show ?thesis
      using lt inb piv B D by (subst backward.simps) simp
  next
    case (Suc i')
    then show ?thesis
      using lt inb piv lenX B D Suc.prems(2)
      by (subst backward.simps) (simp add: nth_append)
  qed
  have "backward N C_J B D (Suc i) (X @ [Xr N A_J B_J C_J d i])
      = Inr (map (Xr N A_J B_J C_J d) [0..<N])"
    using Suc.hyps(2) lt Suc.prems(2)
    by (intro Suc.hyps(1)) auto
  with step show ?case by simp
qed

lemma backward_last_zero:
  assumes "0 < N" and B: "B = map (Bm A_J B_J C_J) [0..<N]"
    and D: "D = map (Dm A_J B_J C_J d) [0..<N]"
    and z: "Bm A_J B_J C_J (N - 1) = 0"
  shows "backward N C_J B D 0 [] = Inl ZeroDivisionError"
  using assms by (subst backward.simps) simp

text \<open>The solver in closed form.\<close>

lemma thomas_closed:
  assumes len: "N \<le> length A_J" "N \<le> length B_J" "N \<le> length C_J" "N \<le> length d"
  shows "thomas N A_J B_J C_J d =
     (if \<exists>j<N. Bm A_J B_J C_J j = 0 then Inl ZeroDivisionError
      else Inr (rev (map (Xr N A_J B_J C_J d) [0..<N])))"
proof -
  let ?B = "map (Bm A_J B_J C_J) [0..<N]" and ?D = "map (Dm A_J B_J C_J d) [0..<N]"
  have fw: "forward N A_J B_J C_J d 0 [] [] =
         (if \<exists>j. Suc j < N \<and> Bm A_J B_J C_J j = 0 then Inl ZeroDivisionError
          else Inr (?B, ?D))"
    using len by (intro forward_sweep) auto
  show ?thesis
  proof (cases "\<exists>j. Suc j < N \<and> Bm A_J B_J C_J j = 0")
    case True
    then have "\<exists>j<N. Bm A_J B_J C_J j = 0"
      using Suc_lessD by blast
    with True fw show ?thesis
      by (simp add: thomas_def)
  next
    case False
    note early = False
    show ?thesis
    proof (cases "0 < N \<and> Bm A_J B_J C_J (N - 1) = 0")
      case True
      then have "backward N C_J ?B ?D 0 [] = Inl ZeroDivisionError"
        by (intro backward_last_zero) auto
      moreover have "\<exists>j<N. Bm A_J B_J C_J j = 0"
        using True by (intro exI[of _ "N - 1"]) simp
      ultimately show ?thesis
        using early fw by (simp add: thomas_def)
    next
      case False
      have nz: "\<And>j. j < N \<Longrightarrow> Bm A_J B_J C_J j \<noteq> 0"
      proof -
        fix j assume "j < N"
        then consider "Suc j < N" | "j = N - 1" "0 < N" by linarith
        then show "Bm A_J B_J C_J j \<noteq> 0"
          using early False by cases auto
      qed
      have "backward N C_J ?B ?D 0 [] = Inr (map (Xr N A_J B_J C_J d) [0..<N])"
        using len nz by (intro backward_sweep) auto
      with early fw nz show ?thesis
        by (auto simp add: thomas_def)
    qed
  qed
qed

lemma Xs_last:
  assumes "0 < N" "Bm A_J B_J C_J (N - 1) \<noteq> 0"
  shows "Bm A_J B_J C_J (N - 1) * Xs N A_J B_J C_J d (N - 1) = Dm A_J B_J C_J d (N - 1)"
  using assms by (simp add: Xs_def)

lemma Xs_inner:
  assumes "Suc i < N" "Bm A_J B_J C_J i \<noteq> 0"
  shows "Bm A_J B_J C_J i * Xs N A_J B_J C_J d i + C_J ! i * Xs N A_J B_J C_J d (Suc i)
           = Dm A_J B_J C_J d i"
proof -
  obtain k where N: "N = Suc (Suc (i + k))"
    using assms(1) less_iff_Suc_add by (metis add_Suc)
  have k: "N - 1 - i = Suc k" "N - 1 - Suc i = k" "N - 1 - Suc k = i"
    by (simp_all add: N)
  have "Xs N A_J B_J C_J d i =
      (Dm A_J B_J C_J d i - C_J ! i * Xs N A_J B_J C_J d (Suc i)) / Bm A_J B_J C_J i"
    unfolding Xs_def k Xr.simps ..
  then show ?thesis
    using assms(2) by (simp add: field_simps)
qed

lemma thomas_row:
  assumes nz: "\<And>j. j < N \<Longrightarrow> Bm A_J B_J C_J j \<noteq> 0" and i: "i < N"
  shows "(if i = 0 then 0 else A_J ! i * Xs N A_J B_J C_J d (i - 1))
       + B_J ! i * Xs N A_J B_J C_J d i
       + (if Suc i < N then C_J ! i * Xs N A_J B_J C_J d (Suc i) else 0)
       = d ! i"
proof -
  let ?x = "Xs N A_J B_J C_J d" and ?B = "Bm A_J B_J C_J" and ?D = "Dm A_J B_J C_J d"
  have red: "?B i * ?x i + (if Suc i < N then C_J ! i * ?x (Suc i) else 0) = ?D i"
  proof (cases "Suc i < N")
    case True
    then show ?thesis using Xs_inner[OF True nz[OF i]] by simp
  next
    case False
    then have "i = N - 1" using i by linarith
    then show ?thesis using Xs_last[of N A_J B_J C_J d] nz[OF i] i False by simp
  qed
  show ?thesis
  proof (cases i)
    case 0
    then show ?thesis using red by simp
  next
    case (Suc j)
    have jN: "Suc j < N" "j < N" using Suc i by auto
    have pj: "?B j \<noteq> 0" using nz jN by blast
    have prev: "?B j * ?x j + C_J ! j * ?x (Suc j) = ?D j"
      using Xs_inner[OF jN(1) pj] .
    have b: "B_J ! Suc j = ?B (Suc j) + A_J ! Suc j * C_J ! j / ?B j"
      by simp
    have dd: "d ! Suc j = ?D (Suc j) + A_J ! Suc j * ?D j / ?B j"
      by simp
    have "A_J ! Suc j * ?D j / ?B j = A_J ! Suc j * ?x j + A_J ! Suc j * C_J ! j / ?B j * ?x (Suc j)"
      using pj prev[symmetric] by (simp add: field_simps)
    then show ?thesis
      using red Suc unfolding b dd by (simp add: algebra_simps)
  qed
qed

lemma thomas_nth:
  assumes "i < N"
  shows "rev (map (Xr N A_J B_J C_J d) [0..<N]) ! i = Xs N A_J B_J C_J d i"
  using assms by (simp add: rev_nth Xs_def)

text \<open>The three-row system \<open>a = [0,-1,-1]\<close>, \<open>b = [2,2,2]\<close>, \<open>c = [-1,-1,0]\<close>, \<open>d = [1,2,3]\<close> solved.\<close>

lemma thomas_fixture:
  "thomas 3 [0, - 1, - 1] [2, 2, 2] [- 1, - 1, 0] [1, 2, 3] = Inr [5 / 2, 4, 7 / 2]"
proof -
  let ?a = "[0, - 1, - 1] :: complex list" and ?b = "[2, 2, 2] :: complex list"
  let ?c = "[- 1, - 1, 0] :: complex list" and ?d = "[1, 2, 3] :: complex list"
  have B: "Bm ?a ?b ?c 0 = 2" "Bm ?a ?b ?c (Suc 0) = 3 / 2" "Bm ?a ?b ?c (Suc (Suc 0)) = 4 / 3"
    by simp_all
  have D: "Dm ?a ?b ?c ?d 0 = 1" "Dm ?a ?b ?c ?d (Suc 0) = 5 / 2"
    "Dm ?a ?b ?c ?d (Suc (Suc 0)) = 14 / 3"
    by simp_all
  have X: "Xr 3 ?a ?b ?c ?d 0 = 7 / 2" "Xr 3 ?a ?b ?c ?d (Suc 0) = 4"
    "Xr 3 ?a ?b ?c ?d (Suc (Suc 0)) = 5 / 2"
    using B D by (simp_all add: numeral_2_eq_2)
  have upt: "[0..<3] = [0, Suc 0, Suc (Suc 0)]"
    by (simp add: upt_conv_Cons numeral_3_eq_3)
  have nz: "\<not> (\<exists>j<3. Bm ?a ?b ?c j = 0)"
  proof
    assume "\<exists>j<3. Bm ?a ?b ?c j = 0"
    then obtain j where j: "j < 3" "Bm ?a ?b ?c j = 0" by blast
    then consider "j = 0" | "j = Suc 0" | "j = Suc (Suc 0)" by linarith
    then show False
      using j(2) by cases (simp_all only: B, simp_all)
  qed
  show ?thesis
    by (subst thomas_closed) (simp_all only: nz if_False upt list.map rev.simps X append.simps, simp_all)
qed

subsection \<open>The potential and the builder in closed form\<close>

lemma sums_loop_closed:
  assumes len: "N \<le> length psi"
    and grid: "\<And>k. k < N \<Longrightarrow> \<not> overflows (real k ^ 2 * dr ^ 3) \<and> \<not> overflows (real k ^ 4 * dr ^ 5)"
    and amp: "\<And>k. k < N \<Longrightarrow> py \<Longrightarrow> \<not> overflows (cmod (psi ! k) ^ 2)"
  shows "i \<le> N \<Longrightarrow> sums_loop py dr N psi i sum_1 sum_2 =
     Inr (sum_1 + (\<Sum>k = i..<N. real k ^ 2 * dr ^ 3 * cmod (psi ! k) ^ 2),
          sum_2 + (\<Sum>k = i..<N. real k ^ 4 * dr ^ 5 * cmod (psi ! k) ^ 2))"
proof (induction "N - i" arbitrary: i sum_1 sum_2)
  case 0
  then show ?case by (subst sums_loop.simps) simp
next
  case (Suc m)
  then have lt: "i < N" by simp
  then have inb: "i < length psi" using len by simp
  have ok: "\<not> ((py \<and> overflows (cmod (psi ! i) ^ 2)) \<or> overflows (real i ^ 2 * dr ^ 3))"
    "\<not> overflows (real i ^ 4 * dr ^ 5)"
    using grid [OF lt] amp [OF lt] by auto
  have "sums_loop py dr N psi i sum_1 sum_2 =
      sums_loop py dr N psi (Suc i) (sum_1 + real i ^ 2 * dr ^ 3 * cmod (psi ! i) ^ 2)
        (sum_2 + real i ^ 4 * dr ^ 5 * cmod (psi ! i) ^ 2)"
    using lt inb ok by (subst sums_loop.simps) (auto simp del: of_nat_power)
  also have "\<dots> = Inr (sum_1 + real i ^ 2 * dr ^ 3 * cmod (psi ! i) ^ 2
        + (\<Sum>k = Suc i..<N. real k ^ 2 * dr ^ 3 * cmod (psi ! k) ^ 2),
      sum_2 + real i ^ 4 * dr ^ 5 * cmod (psi ! i) ^ 2
        + (\<Sum>k = Suc i..<N. real k ^ 4 * dr ^ 5 * cmod (psi ! k) ^ 2))"
    using Suc.hyps(2) lt by (intro Suc.hyps(1)) auto
  finally show ?case
    using lt by (simp add: sum.atLeast_Suc_lessThan add.assoc)
qed

lemma grid_in_rangeD:
  assumes "grid_in_range c" "J < cells_N c"
  shows "\<not> overflows (real J ^ 2 * cell_dr c ^ 3)" "\<not> overflows (real J ^ 4 * cell_dr c ^ 5)"
    "\<not> overflows ((real J * cell_dr c) ^ 2)"
  using assms by (simp_all add: grid_in_range_def list_all_iff)

lemma amplitudes_in_rangeD:
  assumes "amplitudes_in_range psi" "k < length psi"
  shows "\<not> overflows (cmod (psi ! k) ^ 2)"
  using assms by (simp add: amplitudes_in_range_def list_all_iff)

lemma potential_closed:
  assumes len: "cells_N c \<le> length psi" and grid: "grid_in_range c"
    and amp: "py \<longrightarrow> amplitudes_in_range psi"
  shows "potential c py psi =
     Inr (map (\<lambda>J. 2 * pi * om_sq c * ((real J * cell_dr c) ^ 2) * S1 (cell_dr c) (cells_N c) psi
                  - S2 (cell_dr c) (cells_N c) psi) [0..<cells_N c])"
proof -
  have sums: "sums_loop py (cell_dr c) (cells_N c) psi 0 0 0 =
      Inr (S1 (cell_dr c) (cells_N c) psi, S2 (cell_dr c) (cells_N c) psi)"
    unfolding S1_def S2_def
    using sums_loop_closed [of "cells_N c" psi "cell_dr c" py 0 0 0]
      len grid_in_rangeD(1,2) [OF grid] amplitudes_in_rangeD amp
    by (simp del: of_nat_power)
  show ?thesis
    unfolding potential_def
    by (intro traverse_total) (simp add: V_entry_def sums grid_in_rangeD(3) [OF grid])
qed

lemma coeffs_row:
  assumes "t < length V_n_J" "J < cells_N c"
  shows "coeffs c V_n_J t J = Inr (row c (V_n_J ! t) J)"
proof -
  have "(int J = int (cells_N c) - 1) = (Suc J = cells_N c)"
    using assms(2) by auto
  then show ?thesis
    using assms(1) by (simp add: coeffs_def row_def)
qed

lemma builder_closed:
  assumes "t < length V_n_J"
  shows "builder c V_n_J t =
     Inr (map (\<lambda>J. fst (row c (V_n_J ! t) J)) [0..<cells_N c],
          map (\<lambda>J. fst (snd (row c (V_n_J ! t) J))) [0..<cells_N c],
          map (\<lambda>J. snd (snd (row c (V_n_J ! t) J))) [0..<cells_N c])"
proof -
  have "traverse (coeffs c V_n_J t) [0..<cells_N c] = Inr (map (row c (V_n_J ! t)) [0..<cells_N c])"
    using assms by (intro traverse_total) (simp add: coeffs_row)
  then show ?thesis
    by (simp add: builder_def comp_def)
qed

lemma builder_out_of_range:
  assumes "length V_n_J \<le> t" "0 < cells_N c"
  shows "builder c V_n_J t = Inl IndexError"
proof -
  have "[0..<cells_N c] = 0 # [1..<cells_N c]"
    using assms(2) by (simp add: upt_conv_Cons)
  moreover have "coeffs c V_n_J t 0 = Inl IndexError"
    using assms(1) by (simp add: coeffs_def)
  ultimately show ?thesis
    by (simp add: builder_def)
qed


subsection \<open>The modified diagonal of the built system never vanishes\<close>

text \<open>
  The constants \<^verbatim>\<open>K\<close> and \<^verbatim>\<open>P\<close> are imaginary and the potential is real, so every
  diagonal entry has real part one half, and every product \<open>a_(J+1) c_J\<close> is a
  non-positive real. The real part of each modified diagonal is therefore at least one
  half: on the systems the time loop builds, the sweeps never divide by zero.
\<close>

lemma Bm_Re_ge_half:
  assumes b: "\<And>J. J < N \<Longrightarrow> Re (B_J ! J) = 1 / 2"
    and ac: "\<And>J. Suc J < N \<Longrightarrow> Im (A_J ! Suc J * C_J ! J) = 0 \<and> Re (A_J ! Suc J * C_J ! J) \<le> 0"
  shows "J < N \<Longrightarrow> 1 / 2 \<le> Re (Bm A_J B_J C_J J)"
proof (induction J)
  case 0
  then show ?case using b by simp
next
  case (Suc J)
  let ?w = "A_J ! Suc J * C_J ! J" and ?z = "Bm A_J B_J C_J J"
  have z: "1 / 2 \<le> Re ?z" using Suc by simp
  have w: "Im ?w = 0" "Re ?w \<le> 0" using ac Suc.prems by auto
  have "Re (?w * cnj ?z) = Re ?w * Re ?z"
    using w(1) by simp
  also have "\<dots> \<le> 0"
    using w(2) z by (simp add: mult_nonpos_nonneg)
  finally have "Re (?w / ?z) \<le> 0"
    by (simp only: Re_complex_div_le_0)
  then show ?case
    using b [OF Suc.prems] by simp
qed

lemma row_diag_Re: "Re (fst (snd (row c v J))) = 1 / 2"
  by (simp add: row_def K_const_def P_const_def)

lemma row_first_sub: "1 < cells_N c \<Longrightarrow> fst (row c v (Suc 0)) = 0"
  by (cases "cells_N c = 2") (auto simp add: row_def)

lemma scaled_pair:
  fixes k p q :: complex
  assumes "p * q = 1"
  shows "(- k * p) * (- k * q) = k ^ 2"
proof -
  have "(- k * p) * (- k * q) = k ^ 2 * (p * q)"
    by (simp add: power2_eq_square)
  then show ?thesis using assms by simp
qed

lemma row_product:
  assumes "0 < J" "Suc J < cells_N c"
  shows "fst (row c v (Suc J)) * snd (snd (row c v J))
       = - complex_of_real ((hbar c / (8 * halo_M c) * R_const c) ^ 2)"
proof -
  have J: "real J \<noteq> 0" "real J + 1 \<noteq> 0" using assms(1) by auto
  have KR: "K_const c * complex_of_real (R_const c)
      = complex_of_real (hbar c / (8 * halo_M c) * R_const c) * \<i>"
    by (simp add: K_const_def)
  have sq: "(K_const c * complex_of_real (R_const c)) ^ 2
      = - complex_of_real ((hbar c / (8 * halo_M c) * R_const c) ^ 2)"
  proof -
    have "(complex_of_real x * \<i>) ^ 2 = - complex_of_real (x ^ 2)" for x
      by (simp add: power_mult_distrib)
    then show ?thesis
      by (simp only: KR)
  qed
  have c': "snd (snd (row c v J))
      = - (K_const c * complex_of_real (R_const c)) * complex_of_real ((real J + 1) / real J)"
    using assms by (simp add: row_def)
  have a': "fst (row c v (Suc J))
      = - (K_const c * complex_of_real (R_const c)) * complex_of_real (real J / (real J + 1))"
  proof (cases "Suc (Suc J) = cells_N c")
    case True
    then have N: "cells_N c = Suc (Suc J)" by simp
    have "real (cells_N c) - 2 = real J" "real (cells_N c) - 1 = real J + 1"
      by (simp_all add: N)
    then have "fst (row c v (Suc J)) = - K_const c * complex_of_real (R_const c)
           * complex_of_real (real J / (real J + 1))"
      unfolding row_def using N by (simp only: fst_conv if_True if_False nat.simps refl)
    then show ?thesis by simp
  next
    case False
    then have "fst (row c v (Suc J)) = - K_const c * complex_of_real (R_const c)
           * complex_of_real (real (Suc J) - 1) / complex_of_real (real (Suc J))"
      by (simp add: row_def)
    moreover have "real (Suc J) - 1 = real J" "real (Suc J) = real J + 1"
      by simp_all
    ultimately have "fst (row c v (Suc J)) = - K_const c * complex_of_real (R_const c)
           * complex_of_real (real J) / complex_of_real (real J + 1)"
      by (simp only:)
    then show ?thesis
      by (simp only: of_real_divide) simp
  qed
  have r: "real J / (real J + 1) * ((real J + 1) / real J) = 1"
    using assms(1) by (simp add: add_nonneg_eq_0_iff)
  have "complex_of_real (real J / (real J + 1)) * complex_of_real ((real J + 1) / real J)
      = complex_of_real (real J / (real J + 1) * ((real J + 1) / real J))"
    by (simp only: of_real_mult)
  also have "\<dots> = 1"
    by (simp only: r of_real_1)
  finally have pq: "complex_of_real (real J / (real J + 1))
      * complex_of_real ((real J + 1) / real J) = 1" .
  have "fst (row c v (Suc J)) * snd (snd (row c v J))
      = (K_const c * complex_of_real (R_const c)) ^ 2"
    unfolding a' c' by (rule scaled_pair [OF pq])
  then show ?thesis
    using sq by simp
qed

lemma built_pivots:
  assumes "J < cells_N c"
  shows "1 / 2 \<le> Re (Bm (map (\<lambda>J. fst (row c v J)) [0..<cells_N c])
                        (map (\<lambda>J. fst (snd (row c v J))) [0..<cells_N c])
                        (map (\<lambda>J. snd (snd (row c v J))) [0..<cells_N c]) J)"
proof (rule Bm_Re_ge_half [where N = "cells_N c"])
  fix J assume "J < cells_N c"
  then show "Re (map (\<lambda>J. fst (snd (row c v J))) [0..<cells_N c] ! J) = 1 / 2"
    by (simp add: row_diag_Re)
next
  fix J assume J: "Suc J < cells_N c"
  let ?w = "map (\<lambda>J. fst (row c v J)) [0..<cells_N c] ! Suc J
          * map (\<lambda>J. snd (snd (row c v J))) [0..<cells_N c] ! J"
  have w: "?w = fst (row c v (Suc J)) * snd (snd (row c v J))"
    using J by simp
  show "Im ?w = 0 \<and> Re ?w \<le> 0"
  proof (cases "J = 0")
    case True
    then show ?thesis using J w by (simp add: row_first_sub)
  next
    case False
    then have "?w = - complex_of_real ((hbar c / (8 * halo_M c) * R_const c) ^ 2)"
      using J w row_product [of J c v] by simp
    then show ?thesis by simp
  qed
next
  show "J < cells_N c" by fact
qed

subsection \<open>One time step and the loop\<close>

lemma step_closed:
  assumes t: "t < length psi_n_J" and len: "length (psi_n_J ! t) = cells_N c"
    and tN: "t < cells_N c"
    and grid: "grid_in_range c" and amp: "t = 0 \<longrightarrow> amplitudes_in_range (psi_n_J ! t)"
  shows "\<exists>V_n_J A_J B_J C_J X.
           potential c (t = 0) (psi_n_J ! t) = Inr V_n_J \<and> length V_n_J = cells_N c \<and>
           builder c V_n_J t = Inr (A_J, B_J, C_J) \<and>
           (\<forall>i<cells_N c. Bm A_J B_J C_J i \<noteq> 0) \<and>
           thomas (cells_N c) A_J B_J C_J (psi_n_J ! t) = Inr X \<and> length X = cells_N c \<and>
           step c t psi_n_J = Inr (map2 (\<lambda>x y. x - y) X (psi_n_J ! t))"
proof -
  let ?N = "cells_N c" and ?psi = "psi_n_J ! t"
  let ?V = "map (\<lambda>J. 2 * pi * om_sq c * ((real J * cell_dr c) ^ 2) * S1 (cell_dr c) ?N ?psi
                  - S2 (cell_dr c) ?N ?psi) [0..<?N]"
  let ?A = "map (\<lambda>J. fst (row c (?V ! t) J)) [0..<?N]"
  let ?B = "map (\<lambda>J. fst (snd (row c (?V ! t) J))) [0..<?N]"
  let ?C = "map (\<lambda>J. snd (snd (row c (?V ! t) J))) [0..<?N]"
  let ?X = "rev (map (Xr ?N ?A ?B ?C ?psi) [0..<?N])"
  have pot: "potential c (t = 0) ?psi = Inr ?V"
    using len grid amp by (intro potential_closed) simp_all
  have tV: "t < length ?V" using tN by simp
  have bld: "builder c ?V t = Inr (?A, ?B, ?C)"
    using tV by (rule builder_closed)
  have nz: "\<forall>i<?N. Bm ?A ?B ?C i \<noteq> 0"
  proof (intro allI impI)
    fix i assume "i < ?N"
    then have "1 / 2 \<le> Re (Bm ?A ?B ?C i)" by (rule built_pivots)
    then show "Bm ?A ?B ?C i \<noteq> 0" by auto
  qed
  have sol: "thomas ?N ?A ?B ?C ?psi = Inr ?X"
    using nz len by (simp add: thomas_closed)
  have lenX: "length ?X = ?N" by simp
  have "step c t psi_n_J = np_sub ?X ?psi"
    using t by (simp add: step_def pot bld sol del: upt_Suc)
  also have "\<dots> = Inr (map2 (\<lambda>x y. x - y) ?X ?psi)"
    using len by (intro np_sub_same_length) simp
  finally have stp: "step c t psi_n_J = Inr (map2 (\<lambda>x y. x - y) ?X ?psi)" .
  show ?thesis
    using pot bld nz sol lenX stp
    by (intro exI[of _ ?V] exI[of _ ?A] exI[of _ ?B] exI[of _ ?C] exI[of _ ?X]) simp
qed

lemma step_ok:
  assumes "t < length psi_n_J" "length (psi_n_J ! t) = cells_N c" "t < cells_N c"
    "grid_in_range c" "t = 0 \<longrightarrow> amplitudes_in_range (psi_n_J ! t)"
  shows "\<exists>psi'. step c t psi_n_J = Inr psi' \<and> length psi' = cells_N c"
proof -
  obtain X where "length X = cells_N c"
    "step c t psi_n_J = Inr (map2 (\<lambda>x y. x - y) X (psi_n_J ! t))"
    using step_closed [OF assms] by blast
  then show ?thesis
    using assms(2) by simp
qed

lemma step_index_error:
  assumes t: "t < length psi_n_J" and len: "length (psi_n_J ! t) = cells_N c"
    and tN: "cells_N c \<le> t" and N: "0 < cells_N c"
    and grid: "grid_in_range c" and amp: "t = 0 \<longrightarrow> amplitudes_in_range (psi_n_J ! t)"
  shows "step c t psi_n_J = Inl IndexError"
proof -
  let ?N = "cells_N c" and ?psi = "psi_n_J ! t"
  let ?V = "map (\<lambda>J. 2 * pi * om_sq c * ((real J * cell_dr c) ^ 2) * S1 (cell_dr c) ?N ?psi
                  - S2 (cell_dr c) ?N ?psi) [0..<?N]"
  have pot: "potential c (t = 0) ?psi = Inr ?V"
    using len grid amp by (intro potential_closed) simp_all
  have "builder c ?V t = Inl IndexError"
    using tN N by (intro builder_out_of_range) simp_all
  then show ?thesis
    using t by (simp add: step_def pot del: upt_Suc)
qed

lemma step_fault:
  assumes "step c t psi_n_J = Inl e" "t < steps_n c"
  shows "time_loop c t psi_n_J = Inl (e, t, psi_n_J)"
  using assms by (subst time_loop.simps) simp

lemma step_reads_snapshot_t:
  assumes "t < length h1" "t < length h2" "h1 ! t = h2 ! t"
  shows "step c t h1 = step c t h2"
  using assms by (simp add: step_def)

lemma time_loop_completes:
  assumes nN: "steps_n c \<le> cells_N c" and grid: "grid_in_range c"
  shows "t \<le> steps_n c \<Longrightarrow> length psi_n_J = Suc t \<Longrightarrow> length (psi_n_J ! t) = cells_N c
    \<Longrightarrow> (t = 0 \<longrightarrow> amplitudes_in_range (psi_n_J ! t))
    \<Longrightarrow> \<exists>h. time_loop c t psi_n_J = Inr h \<and> length h = Suc (steps_n c)
            \<and> take (Suc t) h = psi_n_J"
proof (induction "steps_n c - t" arbitrary: t psi_n_J)
  case 0
  then have "t = steps_n c" by simp
  with 0 show ?case by (subst time_loop.simps) simp
next
  case (Suc m)
  then have lt: "t < steps_n c" by simp
  then have tN: "t < cells_N c" using nN by simp
  obtain psi' where psi': "step c t psi_n_J = Inr psi'" "length psi' = cells_N c"
    using step_ok [of t psi_n_J c] Suc.prems tN grid by auto
  have unfold: "time_loop c t psi_n_J = time_loop c (Suc t) (psi_n_J @ [psi'])"
    using lt psi' by (subst time_loop.simps) simp
  have "\<exists>h. time_loop c (Suc t) (psi_n_J @ [psi']) = Inr h \<and> length h = Suc (steps_n c)
            \<and> take (Suc (Suc t)) h = psi_n_J @ [psi']"
    using Suc.hyps(2) lt Suc.prems psi'
    by (intro Suc.hyps(1)) (auto simp add: nth_append)
  then obtain h where h: "time_loop c (Suc t) (psi_n_J @ [psi']) = Inr h"
    "length h = Suc (steps_n c)" "take (Suc (Suc t)) h = psi_n_J @ [psi']"
    by blast
  have "take (Suc t) h = take (Suc t) (take (Suc (Suc t)) h)"
    by (simp add: min_def)
  also have "\<dots> = psi_n_J"
    using h(3) Suc.prems(2) by simp
  finally show ?case
    using unfold h by simp
qed

lemma time_loop_aborts:
  assumes nN: "cells_N c < steps_n c" and N: "0 < cells_N c" and grid: "grid_in_range c"
  shows "t \<le> cells_N c \<Longrightarrow> length psi_n_J = Suc t \<Longrightarrow> length (psi_n_J ! t) = cells_N c
    \<Longrightarrow> (t = 0 \<longrightarrow> amplitudes_in_range (psi_n_J ! t))
    \<Longrightarrow> \<exists>h. time_loop c t psi_n_J = Inl (IndexError, cells_N c, h)
            \<and> length h = Suc (cells_N c) \<and> take (Suc t) h = psi_n_J"
proof (induction "cells_N c - t" arbitrary: t psi_n_J)
  case 0
  then have t: "t = cells_N c" by simp
  have "step c t psi_n_J = Inl IndexError"
    using 0 t N grid by (intro step_index_error) simp_all
  then show ?case
    using t nN 0 by (subst time_loop.simps) simp
next
  case (Suc m)
  then have tN: "t < cells_N c" by simp
  then have lt: "t < steps_n c" using nN by simp
  obtain psi' where psi': "step c t psi_n_J = Inr psi'" "length psi' = cells_N c"
    using step_ok [of t psi_n_J c] Suc.prems tN grid by auto
  have unfold: "time_loop c t psi_n_J = time_loop c (Suc t) (psi_n_J @ [psi'])"
    using lt psi' by (subst time_loop.simps) simp
  have "\<exists>h. time_loop c (Suc t) (psi_n_J @ [psi']) = Inl (IndexError, cells_N c, h)
            \<and> length h = Suc (cells_N c) \<and> take (Suc (Suc t)) h = psi_n_J @ [psi']"
    using Suc.hyps(2) tN Suc.prems psi'
    by (intro Suc.hyps(1)) (auto simp add: nth_append)
  then obtain h where h: "time_loop c (Suc t) (psi_n_J @ [psi']) = Inl (IndexError, cells_N c, h)"
    "length h = Suc (cells_N c)" "take (Suc (Suc t)) h = psi_n_J @ [psi']"
    by blast
  have "take (Suc t) h = take (Suc t) (take (Suc (Suc t)) h)"
    by (simp add: min_def)
  also have "\<dots> = psi_n_J"
    using h(3) Suc.prems(2) by simp
  finally show ?case
    using unfold h by simp
qed

lemma time_loop_steps:
  "time_loop c t psi_n_J = Inr h \<Longrightarrow> length psi_n_J = Suc t \<Longrightarrow>
     take (Suc t) h = psi_n_J \<and>
     (\<forall>s. t \<le> s \<and> s < steps_n c \<longrightarrow> Suc s < length h \<and> step c s h = Inr (h ! Suc s))"
proof (induction "steps_n c - t" arbitrary: t psi_n_J)
  case 0
  then have "\<not> t < steps_n c" by simp
  then have "h = psi_n_J"
    using "0.prems"(1) by (subst (asm) time_loop.simps) simp
  then show ?case
    using 0 by auto
next
  case (Suc m)
  then have lt: "t < steps_n c" by simp
  obtain psi' where psi': "step c t psi_n_J = Inr psi'"
    and rest: "time_loop c (Suc t) (psi_n_J @ [psi']) = Inr h"
    using Suc.prems(1) lt
    by (subst (asm) time_loop.simps) (auto split: sum.splits)
  have ih: "take (Suc (Suc t)) h = psi_n_J @ [psi'] \<and>
     (\<forall>s. Suc t \<le> s \<and> s < steps_n c \<longrightarrow> Suc s < length h \<and> step c s h = Inr (h ! Suc s))"
    using Suc.hyps(2) Suc.prems(2) rest by (intro Suc.hyps(1)) auto
  then have tk: "take (Suc (Suc t)) h = psi_n_J @ [psi']" by blast
  have lenh: "Suc t < length h"
  proof (rule ccontr)
    assume "\<not> Suc t < length h"
    then have "length (take (Suc (Suc t)) h) \<le> Suc t" by simp
    then show False using tk Suc.prems(2) by simp
  qed
  have at: "h ! t = psi_n_J ! t" "h ! Suc t = psi'"
  proof -
    have "h ! t = take (Suc (Suc t)) h ! t" by simp
    then show "h ! t = psi_n_J ! t"
      using tk Suc.prems(2) by (simp add: nth_append)
    have "h ! Suc t = take (Suc (Suc t)) h ! Suc t" by simp
    then show "h ! Suc t = psi'"
      using tk Suc.prems(2) by (simp add: nth_append)
  qed
  have "take (Suc t) h = take (Suc t) (take (Suc (Suc t)) h)"
    by (simp add: min_def)
  then have pre: "take (Suc t) h = psi_n_J"
    using tk Suc.prems(2) by simp
  have here: "step c t h = Inr (h ! Suc t)"
    using step_reads_snapshot_t [of t h psi_n_J c] lenh Suc.prems(2) at psi' by simp
  show ?case
  proof (intro conjI allI impI)
    show "take (Suc t) h = psi_n_J" by (rule pre)
  next
    fix s assume s: "t \<le> s \<and> s < steps_n c"
    then consider "s = t" | "Suc t \<le> s" by linarith
    then show "Suc s < length h"
      using lenh ih s by cases auto
  next
    fix s assume s: "t \<le> s \<and> s < steps_n c"
    then consider "s = t" | "Suc t \<le> s" by linarith
    then show "step c s h = Inr (h ! Suc s)"
      using here ih s by cases auto
  qed
qed

lemma run_within_N:
  assumes "steps_n c \<le> cells_N c" "length psi0 = cells_N c"
    "grid_in_range c" "amplitudes_in_range psi0"
  shows "\<exists>h. run c psi0 = Inr h \<and> length h = steps_n c + 1 \<and> h ! 0 = psi0 \<and>
           (\<forall>t<steps_n c. step c t h = Inr (h ! Suc t))"
proof -
  obtain h where h: "time_loop c 0 [psi0] = Inr h" "length h = Suc (steps_n c)"
    using time_loop_completes [OF assms(1,3), of 0 "[psi0]"] assms(2,4) by auto
  have st: "take (Suc 0) h = [psi0] \<and>
     (\<forall>s. 0 \<le> s \<and> s < steps_n c \<longrightarrow> Suc s < length h \<and> step c s h = Inr (h ! Suc s))"
    using h(1) by (intro time_loop_steps) simp_all
  then have "take (Suc 0) h ! 0 = psi0" by simp
  then have "h ! 0 = psi0" by simp
  then show ?thesis
    using h st by (auto simp add: run_def)
qed

subsection \<open>The r_99 scan in closed form\<close>

lemma partial_sum_Suc: "partial_sum dr psi (Suc J) = cumulative dr psi J"
  by (simp add: partial_sum_def cumulative_def atLeastLessThanSuc_atLeastAtMost)

lemma partial_sum_step:
  "partial_sum dr psi (Suc J)
     = partial_sum dr psi J + 4 * pi * (real J * dr) ^ 2 * cmod (psi ! J) ^ 2 * dr"
  by (simp add: partial_sum_def)

lemma scan_found:
  assumes J: "J < length psi" and over: "cumulative dr psi J > 0.99"
    and under: "\<And>j. j < J \<Longrightarrow> cumulative dr psi j \<le> 0.99"
  shows "i \<le> J \<Longrightarrow>
    scan dr (drop i psi) i (partial_sum dr psi i) = (Some (real J * dr), cumulative dr psi J)"
proof (induction "J - i" arbitrary: i)
  case 0
  then have i: "i = J" by simp
  have d: "drop J psi = psi ! J # drop (Suc J) psi"
    using J by (simp add: Cons_nth_drop_Suc)
  show ?case
    using over unfolding i d
    by (simp add: partial_sum_step [symmetric] partial_sum_Suc)
next
  case (Suc m)
  then have lt: "i < J" by simp
  then have d: "drop i psi = psi ! i # drop (Suc i) psi"
    using J by (simp add: Cons_nth_drop_Suc)
  have "\<not> cumulative dr psi i > 0.99"
    using under [OF lt] by simp
  then have "scan dr (drop i psi) i (partial_sum dr psi i)
      = scan dr (drop (Suc i) psi) (Suc i) (partial_sum dr psi (Suc i))"
    unfolding d by (simp add: partial_sum_step [symmetric] partial_sum_Suc)
  also have "\<dots> = (Some (real J * dr), cumulative dr psi J)"
    using Suc.hyps(2) lt by (intro Suc.hyps(1)) auto
  finally show ?case .
qed




subsection \<open>The initial profile\<close>

lemma gaussian_positive:
  assumes "config_ok c"
  shows "0 < gaussian c J"
  using assms by (simp add: gaussian_def config_ok_def)

lemma gaussian_decreasing: "gaussian c (Suc J) \<le> gaussian c J"
proof -
  have "\<bar>real J * cell_dr c\<bar> \<le> \<bar>real (Suc J) * cell_dr c\<bar>"
    by (simp add: abs_mult mult_right_mono)
  then have "(real J * cell_dr c) ^ 2 \<le> (real (Suc J) * cell_dr c) ^ 2"
    by (simp only: abs_le_square_iff)
  then have "- ((real (Suc J) * cell_dr c) ^ 2) / (2 * halo_a c ^ 2)
      \<le> - ((real J * cell_dr c) ^ 2) / (2 * halo_a c ^ 2)"
    by (intro divide_right_mono) simp_all
  then have "exp (- ((real (Suc J) * cell_dr c) ^ 2) / (2 * halo_a c ^ 2))
      \<le> exp (- ((real J * cell_dr c) ^ 2) / (2 * halo_a c ^ 2))"
    by simp
  then show ?thesis
    unfolding gaussian_def by (intro mult_left_mono) simp_all
qed

subsection \<open>The example configurations evaluated\<close>

lemma demo_in_range: "grid_in_range demo_config" "amplitudes_in_range [1, 1]"
  by (simp_all add: grid_in_range_def amplitudes_in_range_def overflows_def demo_config_def
      upt_conv_Cons numeral_2_eq_2)



lemma om_sq_demo: "om_sq demo_config = 1"
  by (simp add: om_sq_def rho_def demo_config_def)

lemma sums_demo: "S1 1 2 [1, 1] = 1" "S2 1 2 [1, 1] = 1"
  by (simp_all add: S1_def S2_def numeral_2_eq_2)

subsection \<open>Numerical bounds\<close>

text \<open>
  Bounds on \<open>pi\<close> from Machin's formula, on \<open>exp (- (dr / a)^2)\<close> from its Taylor
  polynomial, and on the weighted sums of its powers by decimal interval arithmetic.
\<close>

lemma arctan_lower_cubic:
  assumes "0 \<le> x"
  shows "x - x ^ 3 / 3 \<le> arctan x"
proof -
  have "arctan 0 - (0 - 0 ^ 3 / 3) \<le> arctan x - (x - x ^ 3 / 3)"
  proof (rule DERIV_nonneg_imp_nondecreasing [OF assms])
    fix y :: real
    have d: "((\<lambda>y. arctan y - (y - y ^ 3 / 3)) has_real_derivative
        (inverse (1 + y\<^sup>2) - (1 - y ^ 2))) (at y)"
      by (auto intro!: derivative_eq_intros)
    have "inverse (1 + y\<^sup>2) - (1 - y ^ 2) = y ^ 4 / (1 + y\<^sup>2)"
    proof -
      have "1 + y\<^sup>2 \<noteq> 0" by (metis add_nonneg_eq_0_iff zero_le_power2 zero_neq_one zero_le_one)
      then show ?thesis by (simp add: field_simps)
    qed
    then have "0 \<le> inverse (1 + y\<^sup>2) - (1 - y ^ 2)" by simp
    with d show "\<exists>z. ((\<lambda>y. arctan y - (y - y ^ 3 / 3)) has_real_derivative z) (at y) \<and> 0 \<le> z"
      by blast
  qed
  then show ?thesis by simp
qed

lemma arctan_upper_quintic:
  assumes "0 \<le> x"
  shows "arctan x \<le> x - x ^ 3 / 3 + x ^ 5 / 5"
proof -
  have "(0 - 0 ^ 3 / 3 + 0 ^ 5 / 5) - arctan 0 \<le> (x - x ^ 3 / 3 + x ^ 5 / 5) - arctan x"
  proof (rule DERIV_nonneg_imp_nondecreasing [OF assms])
    fix y :: real
    have d: "((\<lambda>y. (y - y ^ 3 / 3 + y ^ 5 / 5) - arctan y) has_real_derivative
        ((1 - y ^ 2 + y ^ 4) - inverse (1 + y\<^sup>2))) (at y)"
      by (auto intro!: derivative_eq_intros)
    have "(1 - y ^ 2 + y ^ 4) - inverse (1 + y\<^sup>2) = y ^ 6 / (1 + y\<^sup>2)"
    proof -
      have "1 + y\<^sup>2 \<noteq> 0" by (metis add_nonneg_eq_0_iff zero_le_power2 zero_neq_one zero_le_one)
      then show ?thesis by (simp add: field_simps)
    qed
    then have "0 \<le> (1 - y ^ 2 + y ^ 4) - inverse (1 + y\<^sup>2)" by simp
    with d show "\<exists>z. ((\<lambda>y. (y - y ^ 3 / 3 + y ^ 5 / 5) - arctan y) has_real_derivative z) (at y) \<and> 0 \<le> z"
      by blast
  qed
  then show ?thesis by simp
qed

lemma pi_bounds: "314 / 100 \<le> pi" "pi \<le> 3142 / 1000"
proof -
  have p: "pi = 16 * arctan (1 / 5) - 4 * arctan (1 / 239)"
    using machin by simp
  have l5: "1 / 5 - (1 / 5) ^ 3 / 3 \<le> arctan (1 / 5)"
    by (rule arctan_lower_cubic) simp
  have u5: "arctan (1 / 5) \<le> 1 / 5 - (1 / 5) ^ 3 / 3 + (1 / 5) ^ 5 / 5"
    by (rule arctan_upper_quintic) simp
  have l239: "1 / 239 - (1 / 239) ^ 3 / 3 \<le> arctan (1 / 239)"
    by (rule arctan_lower_cubic) simp
  have u239: "arctan (1 / 239) \<le> 1 / 239 - (1 / 239) ^ 3 / 3 + (1 / 239) ^ 5 / 5"
    by (rule arctan_upper_quintic) simp
  have "(19733 / 100000 :: real) \<le> 1 / 5 - (1 / 5) ^ 3 / 3"
    by (simp add: power_divide)
  then have l5': "19733 / 100000 \<le> arctan (1 / 5)"
    using l5 by linarith
  have "1 / 5 - (1 / 5) ^ 3 / 3 + (1 / 5) ^ 5 / 5 \<le> (19740 / 100000 :: real)"
    by (simp add: power_divide)
  then have u5': "arctan (1 / 5) \<le> 19740 / 100000"
    using u5 by linarith
  have "(41 / 10000 :: real) \<le> 1 / 239 - (1 / 239) ^ 3 / 3"
    by (simp add: power_divide)
  then have l239': "41 / 10000 \<le> arctan (1 / 239)"
    using l239 by linarith
  have "1 / 239 - (1 / 239) ^ 3 / 3 + (1 / 239) ^ 5 / 5 \<le> (42 / 10000 :: real)"
    by (simp add: power_divide)
  then have u239': "arctan (1 / 239) \<le> 42 / 10000"
    using u239 by linarith
  show "314 / 100 \<le> pi"
    unfolding p using l5' u239' by linarith
  show "pi \<le> 3142 / 1000"
    unfolding p using u5' l239' by linarith
qed

lemma exp_small_bounds:
  "9740854 / 10 ^ 7 \<le> exp (- (25000000 / 952154449 :: real))"
  "exp (- (25000000 / 952154449 :: real)) \<le> 9740855 / 10 ^ 7"
proof -
  define u :: real where "u = 25000000 / 952154449"
  obtain z where z: "\<bar>z\<bar> \<le> \<bar>- u\<bar>"
    and e: "exp (- u) = (\<Sum>m<4. (- u) ^ m / fact m) + exp z / fact 4 * (- u) ^ 4"
    using Maclaurin_exp_le [of "- u" 4] by blast
  have s: "(\<Sum>m<4. (- u) ^ m / fact m) = 1 - u + u ^ 2 / 2 - u ^ 3 / 6"
    by (simp add: numeral_eq_Suc lessThan_Suc)
  have zu: "z \<le> 1 / 2"
    using z by (simp add: u_def)
  have "1 + (- z) \<le> exp (- z)" by (rule exp_ge_add_one_self)
  then have h: "1 / 2 \<le> exp (- z)" using zu by linarith
  have "exp z * (1 / 2) \<le> exp z * exp (- z)"
    using h by (intro mult_left_mono) simp_all
  also have "\<dots> = 1" by (simp add: exp_minus_inverse)
  finally have ez: "exp z \<le> 2" by simp
  have u4: "0 \<le> u ^ 4" by simp
  have r: "0 \<le> exp z / fact 4 * (- u) ^ 4" "exp z / fact 4 * (- u) ^ 4 \<le> u ^ 4 / 8"
  proof -
    have f: "fact 4 = (24 :: real)" by (simp add: numeral_eq_Suc)
    show "0 \<le> exp z / fact 4 * (- u) ^ 4" by (simp add: f)
    have "exp z * u ^ 4 \<le> 2 * u ^ 4"
      using ez u4 by (intro mult_right_mono)
    then have "exp z * u ^ 4 \<le> 3 * u ^ 4"
      using u4 by linarith
    then show "exp z / fact 4 * (- u) ^ 4 \<le> u ^ 4 / 8"
      by (simp add: f mult.commute)
  qed
  have lo: "9740854 / 10 ^ 7 \<le> 1 - u + u ^ 2 / 2 - u ^ 3 / 6"
    by (simp add: u_def power_divide)
  have hi: "1 - u + u ^ 2 / 2 - u ^ 3 / 6 + u ^ 4 / 8 \<le> 9740855 / 10 ^ 7"
    by (simp add: u_def power_divide)
  have eq: "exp (- u) = 1 - u + u ^ 2 / 2 - u ^ 3 / 6 + exp z / fact 4 * (- u) ^ 4"
    using e s by (simp only:)
  have "9740854 / 10 ^ 7 \<le> exp (- u)"
    using lo r(1) unfolding eq by linarith
  then show "9740854 / 10 ^ 7 \<le> exp (- (25000000 / 952154449 :: real))"
    unfolding u_def .
  have "exp (- u) \<le> 9740855 / 10 ^ 7"
    using hi r(2) unfolding eq by linarith
  then show "exp (- (25000000 / 952154449 :: real)) \<le> 9740855 / 10 ^ 7"
    unfolding u_def .
qed

lemma sum_0_14:
  fixes f :: "nat \<Rightarrow> real"
  shows "(\<Sum>i = 0..14. f i) =
    f 0 + f 1 + f 2 + f 3 + f 4 + f 5 + f 6 + f 7 + f 8 + f 9 + f 10 + f 11 + f 12 + f 13 + f 14"
  by (simp add: eval_nat_numeral)

lemma sum_0_15:
  fixes f :: "nat \<Rightarrow> real"
  shows "(\<Sum>i = 0..15. f i) = (\<Sum>i = 0..14. f i) + f 15"
proof -
  have "(15 :: nat) = Suc 14" by simp
  then show ?thesis by (simp only: sum.atLeast0_atMost_Suc)
qed

lemma pow_up:
  fixes q :: real
  assumes "0 \<le> q" "q ^ a \<le> A" "q ^ b \<le> B" "A * B \<le> X" "c = a + b"
  shows "q ^ c \<le> X"
proof -
  have "q ^ c = q ^ a * q ^ b" by (simp add: assms(5) power_add)
  also have "\<dots> \<le> A * B"
  proof (intro mult_mono assms(2,3))
    show "0 \<le> A" using assms(1,2) by (meson order_trans zero_le_power)
    show "0 \<le> q ^ b" using assms(1) by simp
  qed
  finally show ?thesis using assms(4) by simp
qed

lemma pow_low:
  fixes q :: real
  assumes "A \<le> q ^ a" "B \<le> q ^ b" "0 \<le> A" "0 \<le> B" "X \<le> A * B" "c = a + b"
  shows "X \<le> q ^ c"
proof -
  have "A * B \<le> q ^ a * q ^ b"
    using assms(1-4) by (intro mult_mono) (auto intro: order_trans)
  also have "\<dots> = q ^ c" by (simp add: assms(6) power_add)
  finally show ?thesis using assms(5) by simp
qed

lemma weighted_sum_upper:
  fixes q :: real
  assumes "0 \<le> q" "q \<le> 9740855 / 10 ^ 7"
  shows "(\<Sum>i = 0..14. real i ^ 2 * q ^ (i ^ 2)) \<le> 25743775982213 / 250000000000"
proof -
  have q0: "0 \<le> q" by fact
  have us1: "q ^ 1 \<le> 9740855 / 10 ^ 7"
    using assms by simp
  have u2: "q ^ 2 \<le> 948842561311 / 10 ^ 12"
    by (rule pow_up [OF q0 us1 us1]) simp_all
  have uo3: "q ^ 3 \<le> 924253780756 / 10 ^ 12"
    by (rule pow_up [OF q0 us1 u2]) simp_all
  have us4: "q ^ 4 \<le> 900302206155 / 10 ^ 12"
    by (rule pow_up [OF q0 us1 uo3]) simp_all
  have uo5: "q ^ 5 \<le> 876971324634 / 10 ^ 12"
    by (rule pow_up [OF q0 uo3 u2]) simp_all
  have us9: "q ^ 9 \<le> 789539218303 / 10 ^ 12"
    by (rule pow_up [OF q0 us4 uo5]) simp_all
  have uo7: "q ^ 7 \<le> 832107717863 / 10 ^ 12"
    by (rule pow_up [OF q0 uo5 u2]) simp_all
  have us16: "q ^ 16 \<le> 656981677106 / 10 ^ 12"
    by (rule pow_up [OF q0 us9 uo7]) simp_all
  have uo9: "q ^ 9 \<le> 789539218304 / 10 ^ 12"
    by (rule pow_up [OF q0 uo7 u2]) simp_all
  have us25: "q ^ 25 \<le> 518712799783 / 10 ^ 12"
    by (rule pow_up [OF q0 us16 uo9]) simp_all
  have uo11: "q ^ 11 \<le> 749148414152 / 10 ^ 12"
    by (rule pow_up [OF q0 uo9 u2]) simp_all
  have us36: "q ^ 36 \<le> 388592871358 / 10 ^ 12"
    by (rule pow_up [OF q0 us25 uo11]) simp_all
  have uo13: "q ^ 13 \<le> 710823900087 / 10 ^ 12"
    by (rule pow_up [OF q0 uo11 u2]) simp_all
  have us49: "q ^ 49 \<le> 276221100365 / 10 ^ 12"
    by (rule pow_up [OF q0 us36 uo13]) simp_all
  have uo15: "q ^ 15 \<le> 674459970000 / 10 ^ 12"
    by (rule pow_up [OF q0 uo13 u2]) simp_all
  have us64: "q ^ 64 \<le> 186300075066 / 10 ^ 12"
    by (rule pow_up [OF q0 us49 uo15]) simp_all
  have uo17: "q ^ 17 \<le> 639956325437 / 10 ^ 12"
    by (rule pow_up [OF q0 uo15 u2]) simp_all
  have us81: "q ^ 81 \<le> 119223911468 / 10 ^ 12"
    by (rule pow_up [OF q0 us64 uo17]) simp_all
  have uo19: "q ^ 19 \<le> 607217798955 / 10 ^ 12"
    by (rule pow_up [OF q0 uo17 u2]) simp_all
  have us100: "q ^ 100 \<le> 72394881105 / 10 ^ 12"
    by (rule pow_up [OF q0 us81 uo19]) simp_all
  have uo21: "q ^ 21 \<le> 576154091635 / 10 ^ 12"
    by (rule pow_up [OF q0 uo19 u2]) simp_all
  have us121: "q ^ 121 \<le> 41710606963 / 10 ^ 12"
    by (rule pow_up [OF q0 us100 uo21]) simp_all
  have uo23: "q ^ 23 \<le> 546679524017 / 10 ^ 12"
    by (rule pow_up [OF q0 uo21 u2]) simp_all
  have us144: "q ^ 144 \<le> 22802334761 / 10 ^ 12"
    by (rule pow_up [OF q0 us121 uo23]) simp_all
  have uo25: "q ^ 25 \<le> 518712799785 / 10 ^ 12"
    by (rule pow_up [OF q0 uo23 u2]) simp_all
  have us169: "q ^ 169 \<le> 11827862906 / 10 ^ 12"
    by (rule pow_up [OF q0 us144 uo25]) simp_all
  have uo27: "q ^ 27 \<le> 492176781533 / 10 ^ 12"
    by (rule pow_up [OF q0 uo25 u2]) simp_all
  have us196: "q ^ 196 \<le> 5821399498 / 10 ^ 12"
    by (rule pow_up [OF q0 us169 uo27]) simp_all
  have "(\<Sum>i = 0..14. real i ^ 2 * q ^ (i ^ 2)) = q + 4 * q ^ 4 + 9 * q ^ 9 + 16 * q ^ 16 + 25 * q ^ 25 + 36 * q ^ 36 + 49 * q ^ 49 + 64 * q ^ 64 + 81 * q ^ 81 + 100 * q ^ 100 + 121 * q ^ 121 + 144 * q ^ 144 + 169 * q ^ 169 + 196 * q ^ 196"
    by (simp add: sum_0_14)
  also have "\<dots> \<le> 25743775982213 / 250000000000"
    using us1 us4 us9 us16 us25 us36 us49 us64 us81 us100 us121 us144 us169 us196 by simp
  finally show ?thesis .
qed

lemma weighted_sum_lower:
  fixes q :: real
  assumes "9740854 / 10 ^ 7 \<le> q"
  shows "103586190776079 / 1000000000000 \<le> (\<Sum>i = 0..15. real i ^ 2 * q ^ (i ^ 2))"
proof -
  have ls1: "9740854 / 10 ^ 7 \<le> q ^ 1"
    using assms by simp
  have l2: "948842366493 / 10 ^ 12 \<le> q ^ 2"
    by (rule pow_low [OF ls1 ls1]) simp_all
  have lo3: "924253496102 / 10 ^ 12 \<le> q ^ 3"
    by (rule pow_low [OF ls1 l2]) simp_all
  have ls4: "900301836451 / 10 ^ 12 \<le> q ^ 4"
    by (rule pow_low [OF ls1 lo3]) simp_all
  have lo5: "876970874480 / 10 ^ 12 \<le> q ^ 5"
    by (rule pow_low [OF lo3 l2]) simp_all
  have ls9: "789538488808 / 10 ^ 12 \<le> q ^ 9"
    by (rule pow_low [OF ls4 lo5]) simp_all
  have lo7: "832107119887 / 10 ^ 12 \<le> q ^ 7"
    by (rule pow_low [OF lo5 l2]) simp_all
  have ls16: "656980597961 / 10 ^ 12 \<le> q ^ 16"
    by (rule pow_low [OF ls9 lo7]) simp_all
  have lo9: "789538488809 / 10 ^ 12 \<le> q ^ 9"
    by (rule pow_low [OF lo7 l2]) simp_all
  have ls25: "518711468490 / 10 ^ 12 \<le> q ^ 25"
    by (rule pow_low [OF ls16 lo9]) simp_all
  have lo11: "749147568158 / 10 ^ 12 \<le> q ^ 11"
    by (rule pow_low [OF lo9 l2]) simp_all
  have ls36: "388591435194 / 10 ^ 12 \<le> q ^ 36"
    by (rule pow_low [OF ls25 lo11]) simp_all
  have lo13: "710822951423 / 10 ^ 12 \<le> q ^ 13"
    by (rule pow_low [OF lo11 l2]) simp_all
  have ls49: "276219710862 / 10 ^ 12 \<le> q ^ 49"
    by (rule pow_low [OF ls36 lo13]) simp_all
  have lo15: "674458931385 / 10 ^ 12 \<le> q ^ 15"
    by (rule pow_low [OF lo13 l2]) simp_all
  have ls64: "186298851015 / 10 ^ 12 \<le> q ^ 64"
    by (rule pow_low [OF ls49 lo15]) simp_all
  have lo17: "639955208557 / 10 ^ 12 \<le> q ^ 17"
    by (rule pow_low [OF lo15 l2]) simp_all
  have ls81: "119222920055 / 10 ^ 12 \<le> q ^ 81"
    by (rule pow_low [OF ls64 lo17]) simp_all
  have lo19: "607216614536 / 10 ^ 12 \<le> q ^ 19"
    by (rule pow_low [OF lo17 l2]) simp_all
  have ls100: "72394137890 / 10 ^ 12 \<le> q ^ 100"
    by (rule pow_low [OF ls81 lo19]) simp_all
  have lo21: "576152849510 / 10 ^ 12 \<le> q ^ 21"
    by (rule pow_low [OF lo19 l2]) simp_all
  have ls121: "41710088833 / 10 ^ 12 \<le> q ^ 121"
    by (rule pow_low [OF ls100 lo21]) simp_all
  have lo23: "546678233190 / 10 ^ 12 \<le> q ^ 23"
    by (rule pow_low [OF lo21 l2]) simp_all
  have ls144: "22801997669 / 10 ^ 12 \<le> q ^ 144"
    by (rule pow_low [OF ls121 lo23]) simp_all
  have lo25: "518711468490 / 10 ^ 12 \<le> q ^ 25"
    by (rule pow_low [OF lo23 l2]) simp_all
  have ls169: "11827657695 / 10 ^ 12 \<le> q ^ 169"
    by (rule pow_low [OF ls144 lo25]) simp_all
  have lo27: "492175417289 / 10 ^ 12 \<le> q ^ 27"
    by (rule pow_low [OF lo25 l2]) simp_all
  have ls196: "5821282361 / 10 ^ 12 \<le> q ^ 196"
    by (rule pow_low [OF ls169 lo27]) simp_all
  have lo29: "466996887670 / 10 ^ 12 \<le> q ^ 29"
    by (rule pow_low [OF lo27 l2]) simp_all
  have ls225: "2718520744 / 10 ^ 12 \<le> q ^ 225"
    by (rule pow_low [OF ls196 lo29]) simp_all
  have "(\<Sum>i = 0..15. real i ^ 2 * q ^ (i ^ 2)) = q + 4 * q ^ 4 + 9 * q ^ 9 + 16 * q ^ 16 + 25 * q ^ 25 + 36 * q ^ 36 + 49 * q ^ 49 + 64 * q ^ 64 + 81 * q ^ 81 + 100 * q ^ 100 + 121 * q ^ 121 + 144 * q ^ 144 + 169 * q ^ 169 + 196 * q ^ 196 + 225 * q ^ 225"
    by (simp add: sum_0_15 sum_0_14)
  moreover have "103586190776079 / 1000000000000 \<le> q + 4 * q ^ 4 + 9 * q ^ 9 + 16 * q ^ 16 + 25 * q ^ 25 + 36 * q ^ 36 + 49 * q ^ 49 + 64 * q ^ 64 + 81 * q ^ 81 + 100 * q ^ 100 + 121 * q ^ 121 + 144 * q ^ 144 + 169 * q ^ 169 + 196 * q ^ 196 + 225 * q ^ 225"
    using ls1 ls4 ls9 ls16 ls25 ls36 ls49 ls64 ls81 ls100 ls121 ls144 ls169 ls196 ls225 by simp
  ultimately show ?thesis by simp
qed

subsection \<open>Rounding to double\<close>

lemma double_round_zero [simp]: "double_round 0 = 0"
  by (simp add: double_round_def)

lemma double_round_down:
  assumes x: "x \<noteq> 0" and lo: "2 powr real_of_int e \<le> \<bar>x\<bar>"
    and hi: "\<bar>x\<bar> < 2 powr (real_of_int e + 1)" and e: "- 1022 \<le> e"
    and f: "real_of_int f \<le> x / 2 powr (real_of_int e - 52)"
    and frac: "x / 2 powr (real_of_int e - 52) - real_of_int f < 1 / 2"
  shows "double_round x = 2 powr (real_of_int e - 52) * real_of_int f"
proof -
  have "\<lfloor>log 2 \<bar>x\<bar>\<rfloor> = e"
    using x lo hi by (subst floor_log_eq_powr_iff) (simp_all add: add.commute)
  then have m: "max \<lfloor>log 2 \<bar>x\<bar>\<rfloor> (- 1022) = e"
    using e by simp
  define q where "q = x / 2 powr (real_of_int e - 52)"
  have "real_of_int f \<le> q" "q - real_of_int f < 1 / 2"
    using f frac by (simp_all add: q_def)
  then have "\<lfloor>q\<rfloor> = f"
    by (intro floor_unique) linarith+
  then have fl: "\<lfloor>x / 2 powr (real_of_int e - 52)\<rfloor> = f"
    by (simp add: q_def)
  show ?thesis
    using x frac by (simp add: double_round_def m Let_def fl)
qed

lemma two_powr_neg_52: "(2 :: real) powr (- 52) = 1 / 2 ^ 52"
  by (simp add: powr_neg_numeral)

lemma dr_one: "double_round 1 = 1"
  using double_round_down [of 1 0 "2 ^ 52"] by (simp add: two_powr_neg_52)

lemma dr_2_60: "double_round (2 ^ 60) = 2 ^ 60"
  using double_round_down [of "2 ^ 60" 60 "2 ^ 52"] by simp

lemma dr_a: "double_round (1 - 2 ^ 60) = - (2 ^ 60)"
  using double_round_down [of "1 - 2 ^ 60" 59 "- (2 ^ 53)"] by simp

lemma dr_b: "double_round (2 - 2 ^ 60) = - (2 ^ 60)"
  using double_round_down [of "2 - 2 ^ 60" 59 "- (2 ^ 53)"] by simp

lemma dr_numerals:
  "double_round 1152921504606846976 = 1152921504606846976"
  "double_round (- 1152921504606846975) = - 1152921504606846976"
  "double_round (- 1152921504606846974) = - 1152921504606846976"
  using dr_2_60 dr_a dr_b by simp_all

subsection \<open>The initial snapshot of the notebook\<close>

lemma double_round_underflow:
  assumes "0 < x" "x < 2 powr (- 1075)"
  shows "double_round x = 0"
proof -
  have "log 2 x < log 2 (2 powr (- 1075))"
    using assms by (intro log_less) simp_all
  then have "log 2 x < - 1075" by simp
  then have "\<lfloor>log 2 x\<rfloor> \<le> - 1076"
    by (simp add: floor_le_iff)
  then have m: "max \<lfloor>log 2 \<bar>x\<bar>\<rfloor> (- 1022) = - 1022"
    using assms(1) by simp
  define q where "q = x / 2 powr (- 1074)"
  have "2 powr (- 1075) = 2 powr (- 1074) * (1 / 2 :: real)"
    by (simp add: powr_neg_numeral)
  then have q: "0 < q" "q < 1 / 2"
    using assms by (simp_all add: q_def field_simps)
  then have fl: "\<lfloor>q\<rfloor> = 0"
    by (intro floor_unique) simp_all
  show ?thesis
    using assms(1) q fl m by (simp add: double_round_def Let_def q_def [symmetric])
qed

lemma notebook_values:
  "halo_a notebook_config = 617140 * 10 ^ 15" "cell_dr notebook_config = 10 ^ 20"
  "cells_N notebook_config = 300"
  by (simp_all add: notebook_config_def)

lemma notebook_gaussian_sq:
  "gaussian notebook_config i ^ 2 =
     ((pi * (617140 * 10 ^ 15) ^ 2) powr (- 3 / 4)) ^ 2
       * exp (- (25000000 / 952154449)) ^ (i ^ 2)"
proof -
  let ?y = "- ((real i * 10 ^ 20) ^ 2) / (2 * (617140 * 10 ^ 15) ^ 2) :: real"
  have "2 * ?y = real (i ^ 2) * (- (25000000 / 952154449))"
    by (simp add: power_mult_distrib)
  then have "exp ?y ^ 2 = exp (- (25000000 / 952154449)) ^ (i ^ 2)"
    by (simp only: exp_double [symmetric] exp_of_nat_mult)
  then show ?thesis
    by (simp only: gaussian_def notebook_values power_mult_distrib)
qed

lemma notebook_tail_underflows:
  "0 < gaussian notebook_config 299" "gaussian notebook_config 299 < 2 powr (- 1075)"
proof -
  show "0 < gaussian notebook_config 299"
    by (simp add: gaussian_def notebook_values)
  let ?y = "- ((real 299 * 10 ^ 20) ^ 2) / (2 * (617140 * 10 ^ 15) ^ 2) :: real"
  have y: "?y \<le> - 1173" by simp
  have "(2 :: real) ^ 1173 \<le> exp 1 ^ 1173"
  proof (rule power_mono)
    have "1 + (1 :: real) \<le> exp 1" by (rule exp_ge_add_one_self)
    then show "(2 :: real) \<le> exp 1" by simp
  qed simp
  also have "\<dots> = exp (real 1173 * 1)"
    by (simp only: exp_of_nat_mult)
  finally have big: "(2 :: real) ^ 1173 \<le> exp 1173" by simp
  have "exp ?y \<le> exp (- 1173)" using y by (simp only: exp_le_cancel_iff)
  also have "\<dots> = inverse (exp 1173)" by (simp add: exp_minus)
  also have "\<dots> \<le> inverse (2 ^ 1173)"
    using big by (intro le_imp_inverse_le) simp_all
  also have "\<dots> < 2 powr (- 1075)"
    by (simp add: powr_neg_numeral)
  finally have e: "exp ?y < 2 powr (- 1075)" .
  have one: "1 \<le> pi * (617140 * 10 ^ 15) ^ 2"
  proof -
    have "1 \<le> 2 * (1 :: real)" by simp
    also have "\<dots> \<le> pi * (617140 * 10 ^ 15) ^ 2"
      using pi_ge_two by (intro mult_mono) simp_all
    finally show ?thesis .
  qed
  have "(pi * (617140 * 10 ^ 15) ^ 2) powr (- 3 / 4) \<le> (pi * (617140 * 10 ^ 15) ^ 2) powr 0"
    using one by (intro powr_mono) simp_all
  then have P: "(pi * (617140 * 10 ^ 15) ^ 2) powr (- 3 / 4) \<le> 1" by simp
  have "gaussian notebook_config 299 = (pi * (617140 * 10 ^ 15) ^ 2) powr (- 3 / 4) * exp ?y"
    by (simp only: gaussian_def notebook_values)
  also have "\<dots> \<le> 1 * exp ?y"
    using P by (intro mult_right_mono) simp_all
  finally show "gaussian notebook_config 299 < 2 powr (- 1075)"
    using e by simp
qed

lemma notebook_cumulative:
  assumes "J < 300"
  shows "cumulative (10 ^ 20) (map complex_of_real (initial_condition notebook_config)) J =
     4 * pi * (10 ^ 20) ^ 3 * ((pi * (617140 * 10 ^ 15) ^ 2) powr (- 3 / 4)) ^ 2
       * (\<Sum>i = 0..J. real i ^ 2 * exp (- (25000000 / 952154449)) ^ (i ^ 2))"
proof -
  have tm: "4 * pi * (real i * 10 ^ 20) ^ 2
        * cmod (map complex_of_real (initial_condition notebook_config) ! i) ^ 2 * 10 ^ 20
      = 4 * pi * (10 ^ 20) ^ 3 * ((pi * (617140 * 10 ^ 15) ^ 2) powr (- 3 / 4)) ^ 2
        * (real i ^ 2 * exp (- (25000000 / 952154449)) ^ (i ^ 2))" if "i \<in> {0..J}" for i
  proof -
    have i: "i < 300" using that assms by simp
    have "map complex_of_real (initial_condition notebook_config) ! i
        = complex_of_real (gaussian notebook_config i)"
      using i by (simp add: initial_condition_def notebook_values)
    then have "cmod (map complex_of_real (initial_condition notebook_config) ! i) ^ 2
        = gaussian notebook_config i ^ 2"
      by (simp only: norm_of_real power2_abs)
    then show ?thesis
      by (simp only: notebook_gaussian_sq) (simp add: power_mult_distrib)
  qed
  show ?thesis
    unfolding cumulative_def sum_distrib_left
    by (rule sum.cong [OF refl]) (rule tm)
qed

lemma notebook_scale_sq:
  "(4 * pi * (10 ^ 20) ^ 3 * ((pi * (617140 * 10 ^ 15) ^ 2) powr (- 3 / 4)) ^ 2) ^ 2
     = 16 * (25000000 / 952154449) ^ 3 / pi"
proof -
  define x :: real where "x = pi * (617140 * 10 ^ 15) ^ 2"
  have x: "0 < x" by (simp add: x_def)
  have "((x powr (- 3 / 4)) ^ 2) ^ 2 = (x powr (- 3 / 4)) ^ 4"
    by simp
  also have "\<dots> = (x powr (- 3 / 4)) powr (real 4)"
    by (rule powr_realpow [symmetric]) (use x in auto)
  also have "\<dots> = x powr (- 3)"
    by (simp add: powr_powr)
  also have "\<dots> = 1 / x ^ 3"
    using x by (simp add: powr_neg_numeral)
  finally have P: "((x powr (- 3 / 4)) ^ 2) ^ 2 = 1 / x ^ 3" .
  have "(4 * pi * (10 ^ 20) ^ 3 * (x powr (- 3 / 4)) ^ 2) ^ 2
      = 16 * pi ^ 2 * ((10 ^ 20) ^ 3) ^ 2 * ((x powr (- 3 / 4)) ^ 2) ^ 2"
    by (simp only: power_mult_distrib) simp
  also have "\<dots> = 16 * pi ^ 2 * ((10 ^ 20) ^ 3) ^ 2 * (1 / x ^ 3)"
    by (simp only: P)
  also have "\<dots> = 16 * (25000000 / 952154449) ^ 3 / pi"
    by (simp add: x_def power_mult_distrib power2_eq_square power3_eq_cube field_simps)
  finally show ?thesis
    by (simp only: x_def)
qed

lemma notebook_cumulative_14:
  "cumulative (10 ^ 20) (map complex_of_real (initial_condition notebook_config)) 14 \<le> 0.99"
proof -
  let ?K = "4 * pi * (10 ^ 20) ^ 3 * ((pi * (617140 * 10 ^ 15) ^ 2) powr (- 3 / 4)) ^ 2 :: real"
  let ?q = "exp (- (25000000 / 952154449)) :: real"
  let ?S = "\<Sum>i = 0..14. real i ^ 2 * ?q ^ (i ^ 2)"
  have K0: "0 \<le> ?K" by simp
  have S: "?S \<le> 25743775982213 / 250000000000"
    using exp_small_bounds(2) by (intro weighted_sum_upper) simp_all
  have "16 * (25000000 / 952154449) ^ 3 * (25743775982213 / 250000000000) ^ 2 \<le> (9801 / 10000) * (314 / 100 :: real)"
    by (simp add: power_divide)
  also have "\<dots> \<le> (9801 / 10000) * pi"
    using pi_bounds(1) by simp
  finally have "16 * (25000000 / 952154449) ^ 3 / pi * (25743775982213 / 250000000000) ^ 2 \<le> 9801 / 10000"
    by (simp add: field_simps)
  then have "(?K * (25743775982213 / 250000000000)) ^ 2 \<le> (99 / 100) ^ 2"
    by (simp only: power_mult_distrib [of ?K] notebook_scale_sq) (simp add: power_divide)
  then have "?K * (25743775982213 / 250000000000) \<le> 99 / 100"
    by (rule power2_le_imp_le) simp
  moreover have "?K * ?S \<le> ?K * (25743775982213 / 250000000000)"
    using S K0 by (rule mult_left_mono)
  ultimately have "?K * ?S \<le> 99 / 100" by linarith
  then show ?thesis
    by (simp only: notebook_cumulative) simp
qed

lemma notebook_cumulative_15:
  "0.99 < cumulative (10 ^ 20) (map complex_of_real (initial_condition notebook_config)) 15"
proof -
  let ?K = "4 * pi * (10 ^ 20) ^ 3 * ((pi * (617140 * 10 ^ 15) ^ 2) powr (- 3 / 4)) ^ 2 :: real"
  let ?q = "exp (- (25000000 / 952154449)) :: real"
  let ?S = "\<Sum>i = 0..15. real i ^ 2 * ?q ^ (i ^ 2)"
  have K0: "0 \<le> ?K" by simp
  have S: "103586190776079 / 1000000000000 \<le> ?S"
    using exp_small_bounds(1) by (intro weighted_sum_lower) simp_all
  have "(9801 / 10000) * pi \<le> (9801 / 10000) * (3142 / 1000 :: real)"
    using pi_bounds(2) by simp
  also have "\<dots> < 16 * (25000000 / 952154449) ^ 3 * (103586190776079 / 1000000000000) ^ 2"
    by (simp add: power_divide)
  finally have "9801 / 10000 < 16 * (25000000 / 952154449) ^ 3 / pi * (103586190776079 / 1000000000000) ^ 2"
    by (simp add: field_simps)
  then have "(99 / 100) ^ 2 < (?K * (103586190776079 / 1000000000000)) ^ 2"
    by (simp only: power_mult_distrib [of ?K] notebook_scale_sq) (simp add: power_divide)
  then have "99 / 100 < ?K * (103586190776079 / 1000000000000)"
    by (rule power2_less_imp_less) simp
  moreover have "?K * (103586190776079 / 1000000000000) \<le> ?K * ?S"
    using S K0 by (rule mult_left_mono)
  ultimately have "99 / 100 < ?K * ?S" by linarith
  then show ?thesis
    by (simp only: notebook_cumulative) simp
qed

lemma cumulative_mono:
  assumes "0 \<le> dr" "j \<le> J"
  shows "cumulative dr psi j \<le> cumulative dr psi J"
  unfolding cumulative_def
  using assms by (intro sum_mono2) (auto intro!: mult_nonneg_nonneg)

section \<open>The claims\<close>

subsection \<open>C1: the diagonal reads the potential at the time-step index\<close>

text \<open>
  Claim C1 states that the diagonal entry at grid index \<open>J\<close> is built from the potential
  at the same index, \<open>b_J = (1/2)(1 + P V_J + ...)\<close>. The loop reads \<^verbatim>\<open>V_n_J[t]\<close> in
  all three branches (\<open>builder_closed\<close>). On the grid of two cells, at time step 0 and
  with the potential vector \<open>[0, 1]\<close>, the builder returns the diagonal entry
  \<open>1/2 = (1/2)(1 + P V_0)\<close> at index 1, where the claim's formula gives
  \<open>(1/2)(1 + P V_1) = (1 + i)/2\<close>. The sub- and super-diagonal entries are as claimed.
\<close>

theorem builder_diagonal_uses_time_index:
  "builder demo_config [0, 1] 0 = Inr ([0, 0], [(1 + 3 * \<i>) / 2, 1 / 2], [- (3 * \<i>) / 2, 0])
   \<and> 0.5 * (1 + P_const demo_config * complex_of_real ([0, 1] ! 0)) = 1 / 2
   \<and> 0.5 * (1 + P_const demo_config * complex_of_real ([0, 1] ! 1)) = (1 + \<i>) / 2"
  by (simp add: builder_closed row_def demo_config_def P_const_def K_const_def R_const_def
      upt_conv_Cons numeral_2_eq_2)

subsection \<open>C2: the second sum of the potential is not scaled\<close>

text \<open>
  Claim C2 states \<open>V_J = 2 pi Omega^2 ((J dr)^2 S1 - S2)\<close>. The code computes
  \<open>2 pi Omega^2 (J dr)^2 S1 - S2\<close> (\<open>potential_closed\<close>): the factor multiplies the
  first term only. With \<open>Omega^2 = 1\<close>, \<open>dr = 1\<close> and the snapshot \<open>[1, 1]\<close> both sums
  are 1; the code returns \<open>[-1, 2 pi - 1]\<close> and the claimed formula gives
  \<open>[-2 pi, 0]\<close>.
\<close>

theorem potential_second_sum_unscaled:
  "potential demo_config True [1, 1] = Inr [- 1, 2 * pi - 1]
   \<and> claimed_potential demo_config [1, 1] = [- (2 * pi), 0]"
proof -
  have N: "cells_N demo_config = 2" "cell_dr demo_config = 1"
    by (simp_all add: demo_config_def)
  have upt: "[0..<2] = [0, 1]"
    by (simp add: upt_conv_Cons numeral_2_eq_2)
  have "potential demo_config True [1, 1] = Inr [- 1, 2 * pi - 1]"
    by (subst potential_closed) (simp_all add: N om_sq_demo sums_demo upt demo_in_range)
  moreover have "claimed_potential demo_config [1, 1] = [- (2 * pi), 0]"
    by (simp add: claimed_potential_def N om_sq_demo sums_demo upt)
  ultimately show ?thesis ..
qed

subsection \<open>C3: the run stops after N steps\<close>

text \<open>
  Claim C3 states that every valid configuration yields a history of \<open>n + 1\<close> snapshots,
  each new one being \<open>X - psi\<close> for the solver's solution \<open>X\<close>. When the run returns,
  every snapshot is the result of its step (\<open>time_loop_steps\<close>, \<open>step_closed\<close>), and for
  \<open>n \<le> N\<close> it returns \<open>n + 1\<close> snapshots (\<open>run_within_N\<close>). With two cells and three
  time steps the third step reads \<^verbatim>\<open>V_n_J[2]\<close> in a list of length 2: the run raises
  IndexError at \<open>t = 2\<close> and leaves three snapshots instead of four.
\<close>

theorem run_aborts_after_N_steps:
  "\<exists>h. run demo_config [1, 1] = Inl (IndexError, 2, h) \<and> length h = 3"
proof -
  have "\<exists>h. time_loop demo_config 0 [[1, 1]] = Inl (IndexError, cells_N demo_config, h)
      \<and> length h = Suc (cells_N demo_config) \<and> take (Suc 0) h = [[1, 1]]"
    by (intro time_loop_aborts) (simp_all add: demo_in_range, simp_all add: demo_config_def)
  then show ?thesis
    by (auto simp add: run_def demo_config_def)
qed

subsection \<open>C4: the solver solves the tridiagonal system in exact arithmetic\<close>

text \<open>
  Claim C4, amended. For coefficient lists \<open>A_J\<close>, \<open>B_J\<close>, \<open>C_J\<close> and a right-hand side
  \<open>d\<close> of length \<open>N\<close>, whenever every modified diagonal of the forward sweep is nonzero,
  the solver returns a list \<open>X\<close> of length \<open>N\<close> with
  \<open>a_i X_(i-1) + b_i X_i + c_i X_(i+1) = d_i\<close> for every row \<open>i\<close>, the term outside the
  range dropped in the first and in the last row, in exact arithmetic. The conventions
  \<open>a_0 = 0\<close> and \<open>c_(N-1) = 0\<close> are not needed: the sweeps never read those two
  entries. Over doubles nonzero modified diagonals give no bound on the residual.
\<close>

theorem thomas_solves_system:
  assumes len: "length A_J = N" "length B_J = N" "length C_J = N" "length d = N"
    and nz: "\<forall>i<N. Bm A_J B_J C_J i \<noteq> 0"
  shows "\<exists>X. thomas N A_J B_J C_J d = Inr X \<and> length X = N \<and>
           (\<forall>i<N. (if i = 0 then 0 else A_J ! i * X ! (i - 1))
                   + B_J ! i * X ! i
                   + (if Suc i < N then C_J ! i * X ! Suc i else 0)
                   = d ! i)"
proof -
  let ?X = "rev (map (Xr N A_J B_J C_J d) [0..<N])"
  have run: "thomas N A_J B_J C_J d = Inr ?X"
    using len nz by (simp add: thomas_closed)
  have row: "(if i = 0 then 0 else A_J ! i * ?X ! (i - 1)) + B_J ! i * ?X ! i
           + (if Suc i < N then C_J ! i * ?X ! Suc i else 0) = d ! i" if i: "i < N" for i
  proof -
    have "i - 1 < N" using i by simp
    then have x: "?X ! (i - 1) = Xs N A_J B_J C_J d (i - 1)" "?X ! i = Xs N A_J B_J C_J d i"
      "Suc i < N \<Longrightarrow> ?X ! Suc i = Xs N A_J B_J C_J d (Suc i)"
      using i by (simp_all only: thomas_nth)
    have "(if i = 0 then 0 else A_J ! i * Xs N A_J B_J C_J d (i - 1))
       + B_J ! i * Xs N A_J B_J C_J d i
       + (if Suc i < N then C_J ! i * Xs N A_J B_J C_J d (Suc i) else 0) = d ! i"
      using nz i by (intro thomas_row) auto
    then show ?thesis
      using x by (simp only: split: if_splits) auto
  qed
  show ?thesis
    using run row by (intro exI[of _ ?X]) simp
qed

text \<open>The system \<open>a = [0,-1,-1]\<close>, \<open>b = [2,2,2]\<close>, \<open>c = [-1,-1,0]\<close>, \<open>d = [1,2,3]\<close>.\<close>

theorem thomas_solves_system_witness:
  "Bm [0, - 1, - 1] [2, 2, 2] [- 1, - 1, 0] 0 = 2 \<and>
   Bm [0, - 1, - 1] [2, 2, 2] [- 1, - 1, 0] 1 = 3 / 2 \<and>
   Bm [0, - 1, - 1] [2, 2, 2] [- 1, - 1, 0] 2 = 4 / 3 \<and>
   (\<exists>X. thomas 3 [0, - 1, - 1] [2, 2, 2] [- 1, - 1, 0] [1, 2, 3] = Inr X \<and> length X = 3 \<and>
        2 * X ! 0 - X ! 1 = 1 \<and>
        - (X ! 0) + 2 * X ! 1 - X ! 2 = 2 \<and>
        - (X ! 1) + 2 * X ! 2 = 3)"
proof -
  let ?a = "[0, - 1, - 1] :: complex list" and ?b = "[2, 2, 2] :: complex list"
  let ?c = "[- 1, - 1, 0] :: complex list" and ?d = "[1, 2, 3] :: complex list"
  have p0: "Bm ?a ?b ?c 0 = 2" by simp
  have p1: "Bm ?a ?b ?c 1 = 3 / 2"
    unfolding One_nat_def Bm.simps p0 by simp
  have p2: "Bm ?a ?b ?c 2 = 4 / 3"
    using p1 unfolding numeral_2_eq_2 One_nat_def Bm.simps by simp
  have nz: "\<forall>i<3. Bm ?a ?b ?c i \<noteq> 0"
  proof (intro allI impI)
    fix i :: nat assume "i < 3"
    then consider "i = 0" | "i = 1" | "i = 2" by linarith
    then show "Bm ?a ?b ?c i \<noteq> 0"
      by cases (simp_all only: p0 p1 p2, simp_all)
  qed
  obtain X where X: "thomas 3 ?a ?b ?c ?d = Inr X" "length X = 3"
    and rows: "\<forall>i<3. (if i = 0 then 0 else ?a ! i * X ! (i - 1)) + ?b ! i * X ! i
                 + (if Suc i < 3 then ?c ! i * X ! Suc i else 0) = ?d ! i"
    using thomas_solves_system [of ?a 3 ?b ?c ?d, OF _ _ _ _ nz] by auto
  have r0: "2 * X ! 0 - X ! 1 = 1"
    using rows [rule_format, of 0] by simp
  have r1: "- (X ! 0) + 2 * X ! 1 - X ! 2 = 2"
    using rows [rule_format, of 1] by (simp add: numeral_2_eq_2)
  have r2: "- (X ! 1) + 2 * X ! 2 = 3"
    using rows [rule_format, of 2] by (simp add: numeral_2_eq_2)
  show ?thesis
    using p0 p1 p2 X r0 r1 r2 by blast
qed

text \<open>
  Against the claim as stated, which also promises the equations within floating-point
  tolerance over floats: for \<open>a = [0, 1]\<close>, \<open>b = [2^(-60), 1]\<close>, \<open>c = [1, 0]\<close>,
  \<open>d = [1, 2]\<close> both modified diagonals are nonzero, the sweeps on doubles return
  \<open>X = [0, 1]\<close>, and the second row gives \<open>1\<close> where the right-hand side is \<open>2\<close>.
\<close>

theorem thomas_float_residual_counterexample:
  "B_fl [0, 1] [1 / 2 ^ 60, 1] [1, 0] 0 = 1 / 2 ^ 60 \<and>
   B_fl [0, 1] [1 / 2 ^ 60, 1] [1, 0] (Suc 0) = - (2 ^ 60) \<and>
   X_fl 2 [0, 1] [1 / 2 ^ 60, 1] [1, 0] [1, 2] (Suc 0) = 0 \<and>
   X_fl 2 [0, 1] [1 / 2 ^ 60, 1] [1, 0] [1, 2] 0 = 1 \<and>
   [0, 1] ! 1 * X_fl 2 [0, 1] [1 / 2 ^ 60, 1] [1, 0] [1, 2] (Suc 0)
     + [1 / 2 ^ 60, 1] ! 1 * X_fl 2 [0, 1] [1 / 2 ^ 60, 1] [1, 0] [1, 2] 0
     - [1, 2] ! 1 = - 1"
proof -
  let ?a = "[0, 1] :: real list" and ?b = "[1 / 2 ^ 60, 1] :: real list"
  let ?c = "[1, 0] :: real list" and ?d = "[1, 2] :: real list"
  have B0: "B_fl ?a ?b ?c 0 = 1 / 2 ^ 60" by simp
  have B1: "B_fl ?a ?b ?c (Suc 0) = - (2 ^ 60)"
    by (simp add: dr_one dr_numerals)
  have D0: "D_fl ?a ?b ?c ?d 0 = 1" by simp
  have D1: "D_fl ?a ?b ?c ?d (Suc 0) = - (2 ^ 60)"
    by (simp add: dr_one dr_numerals)
  have X1: "X_fl 2 ?a ?b ?c ?d 0 = 1"
    unfolding X_fl.simps using B1 D1 by (simp add: dr_one)
  have X0: "X_fl 2 ?a ?b ?c ?d (Suc 0) = 0"
    unfolding X_fl.simps using X1 [unfolded X_fl.simps] by (simp add: dr_one)
  show ?thesis
    using B0 B1 X0 X1 by simp
qed

subsection \<open>C5: the solver raises exactly on a zero modified diagonal\<close>

text \<open>
  Claim C5, amended. The notebook has no test of the modified diagonal and no tolerance:
  the fault is the ZeroDivisionError of Python's own complex division. For lists of
  length \<open>N\<close> the solver raises if and only if some modified diagonal is exactly zero,
  and ZeroDivisionError is the only exception it raises. A modified diagonal that is
  nonzero, however small, is divided by. (Any exception of a step stops the loop with the
  history unchanged, \<open>step_fault\<close>; on the systems the loop builds the modified diagonal
  is never zero, \<open>built_pivots\<close>.)
\<close>

theorem thomas_fault_iff:
  assumes len: "length A_J = N" "length B_J = N" "length C_J = N" "length d = N"
  shows "(thomas N A_J B_J C_J d = Inl ZeroDivisionError) = (\<exists>i<N. Bm A_J B_J C_J i = 0)
       \<and> isl (thomas N A_J B_J C_J d) = (\<exists>i<N. Bm A_J B_J C_J i = 0)"
  using len by (simp add: thomas_closed)

text \<open>The second modified diagonal is \<open>1 - 1 * 1 / 1 = 0\<close>.\<close>

theorem thomas_fault_iff_witness:
  "Bm [0, 1] [1, 1] [1, 0] 1 = 0 \<and> thomas 2 [0, 1] [1, 1] [1, 0] [1, 1] = Inl ZeroDivisionError"
proof -
  have z: "Bm [0, 1] [1, 1] [1, 0] 1 = 0" by simp
  then have "\<exists>i<2. Bm [0, 1] [1, 1] [1, 0] i = 0"
    by (intro exI[of _ 1]) simp
  then show ?thesis
    using z thomas_fault_iff [of "[0, 1]" 2 "[1, 1]" "[1, 0]" "[1, 1]"] by simp
qed

text \<open>
  Against the claim as stated, with a numerically zero diagonal understood as a value
  within a tolerance of zero: a modified diagonal of \<open>10^(-300)\<close> raises nothing, and
  the solver returns \<open>10^300\<close>.
\<close>

theorem thomas_tiny_pivot_counterexample:
  "Bm [0] [1 / 10 ^ 300] [0] 0 = 1 / 10 ^ 300 \<and>
   thomas 1 [0] [1 / 10 ^ 300] [0] [1] = Inr [10 ^ 300]"
  by (simp add: thomas_closed)

subsection \<open>C6: the r_99 scan appends the first crossing or nothing\<close>




subsection \<open>C8: the initial snapshot of the notebook's configuration\<close>

text \<open>
  Claim C8. With \<open>N = 300\<close>, \<open>dr = 10^20\<close> and \<open>a = 20 * 3.0857 * 10^19\<close> the
  amplitude at index 299 is positive and below \<open>2^(-1075)\<close>, half the least positive
  double, so that it rounds to the double \<open>0.0\<close>; and the scan of the initial snapshot
  appends exactly \<open>15 * dr = 1.5 * 10^21\<close>: the running sum is at most 0.99 up to index
  14 and exceeds it at index 15.
\<close>

theorem notebook_first_snapshot:
  "0 < initial_condition notebook_config ! 299 \<and>
   initial_condition notebook_config ! 299 < 2 powr (- 1075) \<and>
   double_round (initial_condition notebook_config ! 299) = 0 \<and>
   found (cell_dr notebook_config) (map complex_of_real (initial_condition notebook_config))
     = [1500000000000000000000]"
proof -
  let ?psi = "map complex_of_real (initial_condition notebook_config)"
  have amp: "initial_condition notebook_config ! 299 = gaussian notebook_config 299"
    by (simp add: initial_condition_def notebook_values)
  have small: "0 < initial_condition notebook_config ! 299"
    "initial_condition notebook_config ! 299 < 2 powr (- 1075)"
    unfolding amp by (rule notebook_tail_underflows)+
  have zero: "double_round (initial_condition notebook_config ! 299) = 0"
    using small by (rule double_round_underflow)
  have len: "15 < length ?psi"
    by (simp add: initial_condition_def notebook_values)
  have under: "cumulative (10 ^ 20) ?psi j \<le> 0.99" if "j < 15" for j
  proof -
    have "cumulative (10 ^ 20) ?psi j \<le> cumulative (10 ^ 20) ?psi 14"
      using that by (intro cumulative_mono) simp_all
    then show ?thesis
      using notebook_cumulative_14 by linarith
  qed
  have "scan (10 ^ 20) (drop 0 ?psi) 0 (partial_sum (10 ^ 20) ?psi 0)
      = (Some (real 15 * 10 ^ 20), cumulative (10 ^ 20) ?psi 15)"
    using len notebook_cumulative_15 under by (intro scan_found) simp_all
  then have "fst (scan (10 ^ 20) ?psi 0 0) = Some 1500000000000000000000"
    by (simp add: partial_sum_def)
  then have "found (cell_dr notebook_config) ?psi = [1500000000000000000000]"
    by (simp add: found_def notebook_values)
  then show ?thesis
    using small zero by simp
qed

subsection \<open>C9: the potential is indexed by the time step\<close>



text \<open>
  Outside that range the run stops earlier: with \<^verbatim>\<open>dr = 10**70\<close> the int
  \<^verbatim>\<open>i**4*dr**5\<close> cannot be converted to a float at \<open>i = 1\<close> of the first step.
\<close>

lemma run_overflows_on_huge_dr:
  "run (demo_config\<lparr>cell_dr := 10 ^ 70\<rparr>) [1, 1] = Inl (OverflowError, 0, [[1, 1]])"
proof -
  have "sums_loop True (10 ^ 70) 2 [1, 1] 0 0 0 = Inl OverflowError"
    by (simp add: sums_loop.simps overflows_def)
  then have "potential (demo_config\<lparr>cell_dr := 10 ^ 70\<rparr>) True [1, 1] = Inl OverflowError"
    by (simp add: potential_def V_entry_def demo_config_def upt_conv_Cons numeral_2_eq_2)
  then have "step (demo_config\<lparr>cell_dr := 10 ^ 70\<rparr>) 0 [[1, 1]] = Inl OverflowError"
    by (simp add: step_def)
  then show ?thesis
    by (simp add: run_def time_loop.simps demo_config_def)
qed

subsection \<open>C10: the initial profile is non-negative and non-increasing\<close>

text \<open>
  Claim C10. The initial snapshot has \<open>N\<close> real entries, each non-negative, and each
  entry is at most the one before it.
\<close>

theorem initial_condition_monotone:
  assumes "config_ok c"
  shows "length (initial_condition c) = cells_N c \<and>
    (\<forall>J<cells_N c. 0 \<le> initial_condition c ! J) \<and>
    (\<forall>J. Suc J < cells_N c \<longrightarrow> initial_condition c ! Suc J \<le> initial_condition c ! J)"
proof (intro conjI allI impI)
  show "length (initial_condition c) = cells_N c"
    by (simp add: initial_condition_def)
next
  fix J assume "J < cells_N c"
  then show "0 \<le> initial_condition c ! J"
    by (simp add: initial_condition_def gaussian_def)
next
  fix J assume "Suc J < cells_N c"
  then show "initial_condition c ! Suc J \<le> initial_condition c ! J"
    using gaussian_decreasing [of c J] by (simp add: initial_condition_def del: upt_Suc)
qed

theorem initial_condition_monotone_witness:
  "config_ok notebook_config \<and> length (initial_condition notebook_config) = 300 \<and>
   0 \<le> initial_condition notebook_config ! 299 \<and>
   initial_condition notebook_config ! 299 \<le> initial_condition notebook_config ! 298"
proof -
  have ok: "config_ok notebook_config"
    by (simp add: notebook_config_def config_ok_def)
  have N: "cells_N notebook_config = 300"
    by (simp add: notebook_config_def)
  show ?thesis
    using initial_condition_monotone [OF ok] ok unfolding N
    by (auto dest: spec [of _ 298])
qed

end
